theory Spec2Isabelle
  imports Complex_Main "HOL-Library.Multiset"
begin

section \<open>Data model (hooks/useGameBoard.ts, lines 20-34)\<close>

text \<open>
  JavaScript numbers that hold row and column indices, tile indices, tile values and
  scores are modelled as unbounded integers: every value the engine computes is an
  integer obtained by adding one, doubling or clamping, all exact on doubles far beyond
  any reachable board.

  \<open>Tile extends Location\<close> is a record extension; the direction type \<open>Vector\<close>
  (utils/types, structurally an object with fields \<open>r\<close> and \<open>c\<close>) is the same record.
  The field \<open>id\<close> is named \<open>id'\<close> because \<open>id\<close> is the identity function of HOL.
\<close>

record Location =
  r :: int
  c :: int

type_synonym Vector = Location

record Tile = Location +
  index :: int
  id' :: string
  isNew :: bool
  isMerging :: bool
  canMerge :: bool
  "value" :: int

type_synonym Cell = "Tile option"

type_synonym Grid = "Cell list list"

text \<open>
  The only exception the engine can raise: reading \<open>.length\<close> of \<open>grid[0]\<close> when the
  grid has no row.
\<close>

datatype error = TypeError

text \<open>
  Modelled from the spec: the type \<open>GameStatus\<close> of hooks/useGameState, which is not among
  the sources; the spec lists its values as running, win, lost, continue and restart.
\<close>

datatype GameStatus = Running | Win | Lost | Continue | Restart

text \<open>
  Modelled from the spec: the table \<open>DIRECTION_MAP\<close> of utils/constants, which is not among
  the sources; the spec gives the four direction vectors as (-1,0), (1,0), (0,-1), (0,1)
  for up, down, left and right, the first component being the row.
\<close>

definition DIRECTION_Up :: Vector where
  "DIRECTION_Up = \<lparr>r = -1, c = 0\<rparr>"

definition DIRECTION_Down :: Vector where
  "DIRECTION_Down = \<lparr>r = 1, c = 0\<rparr>"

definition DIRECTION_Left :: Vector where
  "DIRECTION_Left = \<lparr>r = 0, c = -1\<rparr>"

definition DIRECTION_Right :: Vector where
  "DIRECTION_Right = \<lparr>r = 0, c = 1\<rparr>"

section \<open>The environment: tile counter, random source, clock (utils/common.ts)\<close>

text \<open>
  \<open>_tileIndex\<close> is the module-level counter. \<open>Math.random()\<close> and \<open>Date.now()\<close> are
  inputs from outside: the world carries the sequence of results that the successive
  calls return and how many calls have been made. Theorems quantify over the world, so
  they hold for every outcome of the random source and every clock.
\<close>

record World =
  tileIndex :: int
  randoms :: "nat \<Rightarrow> real"
  randomCalls :: nat
  dates :: "nat \<Rightarrow> int"
  dateCalls :: nat

definition nextTileIndex :: "World \<Rightarrow> int \<times> World" where
  "nextTileIndex w = (tileIndex w, w\<lparr>tileIndex := tileIndex w + 1\<rparr>)"

definition resetTileIndex :: "World \<Rightarrow> World" where
  "resetTileIndex w = w\<lparr>tileIndex := 0\<rparr>"

definition mathRandom :: "World \<Rightarrow> real \<times> World" where
  "mathRandom w = (randoms w (randomCalls w), w\<lparr>randomCalls := Suc (randomCalls w)\<rparr>)"

definition dateNow :: "World \<Rightarrow> int \<times> World" where
  "dateNow w = (dates w (dateCalls w), w\<lparr>dateCalls := Suc (dateCalls w)\<rparr>)"

text \<open>
  \<open>Math.random()\<close> returns a number in the half-open interval from 0 to 1. A world is
  valid when every draw of its random source is in that interval. With a draw outside
  the interval the swap of \<open>shuffle\<close> would read outside the array, which a list does
  not model; the properties that depend on where a tile is spawned assume a valid
  world, and the others hold for every world.
\<close>

definition validWorld :: "World \<Rightarrow> bool" where
  "validWorld w = (\<forall>n. 0 \<le> randoms w n \<and> randoms w n < 1)"

text \<open>
  The swap \<open>[a[i], a[j]] = [a[j], a[i]]\<close> reads both elements first. The loop of
  \<open>shuffle\<close> runs for \<open>i\<close> from \<open>length - 1\<close> down to 1; \<open>shuffleLoop i\<close> is the loop
  from \<open>i\<close> on.
\<close>

fun shuffleLoop :: "nat \<Rightarrow> 'a list \<Rightarrow> World \<Rightarrow> 'a list \<times> World" where
  "shuffleLoop 0 shuffled w = (shuffled, w)"
| "shuffleLoop (Suc k) shuffled w =
     (let (u, w1) = mathRandom w;
          i = Suc k;
          j = nat \<lfloor>u * (real i + 1)\<rfloor>
      in shuffleLoop k (shuffled[i := shuffled ! j, j := shuffled ! i]) w1)"

definition shuffle :: "'a list \<Rightarrow> World \<Rightarrow> 'a list \<times> World" where
  "shuffle arr w = shuffleLoop (length arr - 1) arr w"

text \<open>
  The template literal of \<open>getId\<close> prints both numbers in decimal, with a minus sign for
  a negative one.
\<close>

fun digits :: "nat \<Rightarrow> string" where
  "digits n =
     (if n < 10 then [''0123456789'' ! n]
      else digits (n div 10) @ [''0123456789'' ! (n mod 10)])"

definition showNum :: "int \<Rightarrow> string" where
  "showNum n = (if n < 0 then ''-'' @ digits (nat (- n)) else digits (nat n))"

definition getId :: "int \<Rightarrow> World \<Rightarrow> string \<times> World" where
  "getId ind w = (let (now, w1) = dateNow w in (showNum ind @ ''_'' @ showNum now, w1))"

definition clamp :: "int \<Rightarrow> int \<Rightarrow> int \<Rightarrow> int" where
  "clamp d mn mx = max (min mx d) mn"

definition createIndexArray :: "nat \<Rightarrow> int list" where
  "createIndexArray len = map int [0..<len]"

section \<open>Grid access\<close>

text \<open>
  \<open>cellAt grid i j\<close> is the read \<open>grid[i][j]\<close>. A column outside the row reads
  \<open>undefined\<close>, which the code treats as an empty cell. A row outside the grid would raise
  in JavaScript; every row index the engine uses is a traversal index or a result of
  \<open>clamp\<close> into the rows of a grid that has one (lemma \<open>clamp_in_range\<close>), so that read
  is in range and the model returns the empty cell for the others.

  \<open>setCell grid i j v\<close> is the write \<open>grid[i][j] = v\<close>; a write beyond the end of a row
  extends the row, as an array does.
\<close>

definition cellAt :: "Grid \<Rightarrow> int \<Rightarrow> int \<Rightarrow> Cell" where
  "cellAt grid i j =
     (if 0 \<le> i \<and> nat i < length grid \<and> 0 \<le> j \<and> nat j < length (grid ! nat i)
      then grid ! nat i ! nat j else None)"

definition setAt :: "Cell list \<Rightarrow> nat \<Rightarrow> Cell \<Rightarrow> Cell list" where
  "setAt row j v =
     (if j < length row then row[j := v]
      else row @ replicate (j - length row) None @ [v])"

definition setCell :: "Grid \<Rightarrow> int \<Rightarrow> int \<Rightarrow> Cell \<Rightarrow> Grid" where
  "setCell grid i j v =
     (if 0 \<le> i \<and> nat i < length grid \<and> 0 \<le> j
      then grid[nat i := setAt (grid ! nat i) (nat j) v] else grid)"

section \<open>Spawner (hooks/useGameBoard.ts, lines 45-79)\<close>

definition createRow :: "nat \<Rightarrow> (nat \<Rightarrow> 'a) \<Rightarrow> 'a list" where
  "createRow rows cb = map cb [0..<rows]"

definition createEmptyGrid :: "nat \<Rightarrow> nat \<Rightarrow> Grid" where
  "createEmptyGrid rows cols = createRow rows (\<lambda>_. createRow cols (\<lambda>_. None))"

definition createNewTile :: "int \<Rightarrow> int \<Rightarrow> World \<Rightarrow> Tile \<times> World" where
  "createNewTile row col w =
     (let (ind, w1) = nextTileIndex w;
          (ident, w2) = getId ind w1;
          (u, w3) = mathRandom w2
      in (\<lparr>r = row, c = col, index = ind, id' = ident, isNew = True,
           isMerging = False, canMerge = False,
           value = (if u > 0.99 then 4 else 2)\<rparr>, w3))"

definition getEmptyCellsLocation :: "Grid \<Rightarrow> Location list" where
  "getEmptyCellsLocation grid =
     concat (map (\<lambda>(i, row).
        concat (map (\<lambda>(j, cell).
          (case cell of None \<Rightarrow> [\<lparr>r = int i, c = int j\<rparr>] | Some _ \<Rightarrow> []))
          (enumerate 0 row)))
       (enumerate 0 grid))"

fun createTiles :: "Location list \<Rightarrow> World \<Rightarrow> Tile list \<times> World" where
  "createTiles [] w = ([], w)"
| "createTiles (loc # locs) w =
     (let (tile, w1) = createNewTile (r loc) (c loc) w;
          (rest, w2) = createTiles locs w1
      in (tile # rest, w2))"

definition createRandomTiles :: "Location list \<Rightarrow> nat \<Rightarrow> World \<Rightarrow> Tile list \<times> World" where
  "createRandomTiles emptyCells amount w =
     (let tilesNumber = (if length emptyCells < amount then length emptyCells else amount)
      in if tilesNumber = 0 then ([], w)
         else (let (shuffled, w1) = shuffle emptyCells w
               in createTiles (take tilesNumber shuffled) w1))"

section \<open>Traversal order, sorting and the terminal-state detector (lines 81-121)\<close>

definition createTraversalMap :: "nat \<Rightarrow> nat \<Rightarrow> Vector \<Rightarrow> int list \<times> int list" where
  "createTraversalMap rows cols dir =
     (let rowsMap = createIndexArray rows;
          colsMap = createIndexArray cols
      in (if r dir > 0 then rev rowsMap else rowsMap,
          if c dir > 0 then rev colsMap else colsMap))"

definition sortTiles :: "Tile list \<Rightarrow> Tile list" where
  "sortTiles tiles = sort_key index tiles"

definition isWin :: "Tile list \<Rightarrow> bool" where
  "isWin tiles = list_ex (\<lambda>tile. value tile = 2048) tiles"

definition dirs :: "Vector list" where
  "dirs = [DIRECTION_Left, DIRECTION_Right, DIRECTION_Up, DIRECTION_Down]"

text \<open>
  The two nested loops of \<open>canGameContinue\<close> return true at the first tile and direction
  whose clamped neighbour is another cell that is empty or holds the same value, and
  false when there is none.
\<close>

definition neighbourFree :: "Grid \<Rightarrow> int \<Rightarrow> int \<Rightarrow> Tile \<Rightarrow> Vector \<Rightarrow> bool" where
  "neighbourFree grid totalRows totalCols tile dir =
     (let nextRow = clamp (r tile + r dir) 0 (totalRows - 1);
          nextCol = clamp (c tile + c dir) 0 (totalCols - 1)
      in (nextRow \<noteq> r tile \<or> nextCol \<noteq> c tile) \<and>
         (case cellAt grid nextRow nextCol of
            None \<Rightarrow> True
          | Some t \<Rightarrow> value t = value tile))"

definition canGameContinue :: "Grid \<Rightarrow> Tile list \<Rightarrow> error + bool" where
  "canGameContinue grid tiles =
     (case grid of
        [] \<Rightarrow> Inl TypeError
      | row0 # _ \<Rightarrow>
          (let totalRows = int (length grid);
               totalCols = int (length row0)
           in if int (length tiles) < totalRows * totalCols then Inr True
              else Inr (list_ex (\<lambda>tile.
                     list_ex (neighbourFree grid totalRows totalCols tile) dirs) tiles)))"

section \<open>Merge finalizer (lines 123-168)\<close>

definition mergeTile :: "Tile \<Rightarrow> Tile" where
  "mergeTile tile =
     tile\<lparr>value := (if canMerge tile then 2 * value tile else value tile),
          isMerging := canMerge tile, canMerge := False, isNew := False\<rparr>"

text \<open>
  The nested \<open>map\<close> of lines 129-154 visits the cells in row-major order, appends every
  merged tile to \<open>tiles\<close> and adds the doubled value of a flagged tile to \<open>score\<close>.
\<close>

fun mergeRow :: "Cell list \<Rightarrow> Tile list \<times> int \<Rightarrow> Cell list \<times> Tile list \<times> int" where
  "mergeRow [] (tiles, score) = ([], tiles, score)"
| "mergeRow (None # rest) (tiles, score) =
     (let (rest', tiles', score') = mergeRow rest (tiles, score)
      in (None # rest', tiles', score'))"
| "mergeRow (Some tile # rest) (tiles, score) =
     (let mergedTile = mergeTile tile;
          (rest', tiles', score') =
             mergeRow rest (tiles @ [mergedTile],
                            if canMerge tile then score + value mergedTile else score)
      in (Some mergedTile # rest', tiles', score'))"

fun mergeGrid :: "Grid \<Rightarrow> Tile list \<times> int \<Rightarrow> Grid \<times> Tile list \<times> int" where
  "mergeGrid [] (tiles, score) = ([], tiles, score)"
| "mergeGrid (row # rest) (tiles, score) =
     (let (row', tiles1, score1) = mergeRow row (tiles, score);
          (rest', tiles2, score2) = mergeGrid rest (tiles1, score1)
      in (row' # rest', tiles2, score2))"

definition placeTiles :: "Tile list \<Rightarrow> Grid \<times> Tile list \<Rightarrow> Grid \<times> Tile list" where
  "placeTiles newTiles st =
     fold (\<lambda>tile (newGrid, tiles).
            (setCell newGrid (r tile) (c tile) (Some tile), tiles @ [tile])) newTiles st"

definition mergeAndCreateNewTiles ::
  "Grid \<Rightarrow> World \<Rightarrow> error + ((Grid \<times> Tile list \<times> int) \<times> World)" where
  "mergeAndCreateNewTiles grid w =
     (case grid of
        [] \<Rightarrow> Inl TypeError
      | row0 # _ \<Rightarrow>
          (let rows = length grid;
               cols = length row0;
               (newGrid, tiles, score) = mergeGrid grid ([], 0);
               emptyCells = getEmptyCellsLocation newGrid;
               (newTiles, w1) =
                  createRandomTiles emptyCells (if rows * cols \<ge> 24 then 2 else 1) w;
               (newGrid', tiles') = placeTiles newTiles (newGrid, tiles)
           in Inr ((newGrid', tiles', score), w1)))"

section \<open>Move engine (lines 170-232)\<close>

record Pos =
  currRow :: int
  currCol :: int
  nextRow :: int
  nextCol :: int

text \<open>
  Two measures for the termination of the sliding loop: \<open>potential\<close> bounds the number of
  clamped steps that one coordinate can still make in the direction, and \<open>lag\<close> adds one
  while the next coordinate is still ahead of the current one.
\<close>

definition potential :: "int \<Rightarrow> int \<Rightarrow> int \<Rightarrow> nat" where
  "potential d n x =
     (if clamp (x + d) 0 (n - 1) = x then 0
      else if 0 \<le> x \<and> x \<le> n - 1
        then 1 + nat (if 0 < d then n - 1 - x else x)
        else nat (max n 0) + 1)"

definition lag :: "int \<Rightarrow> int \<Rightarrow> int \<Rightarrow> int \<Rightarrow> nat" where
  "lag d n cur nxt = (if nxt \<noteq> cur then 1 else 0) + 2 * potential d n nxt"

text \<open>The \<open>while\<close> loop of lines 189-203, with \<open>break\<close> as the return of the position.\<close>

function slide :: "Grid \<Rightarrow> Vector \<Rightarrow> Tile \<Rightarrow> int \<Rightarrow> int \<Rightarrow> Pos \<Rightarrow> Pos" where
  "slide newGrid dir tile totalRows totalCols pos =
     (if nextRow pos \<noteq> currRow pos \<or> nextCol pos \<noteq> currCol pos then
        (case cellAt newGrid (nextRow pos) (nextCol pos) of
           Some nextTile \<Rightarrow>
             if value nextTile = value tile \<and> \<not> canMerge nextTile
             then pos\<lparr>currRow := nextRow pos, currCol := nextCol pos\<rparr>
             else pos
         | None \<Rightarrow>
             slide newGrid dir tile totalRows totalCols
               \<lparr>currRow = nextRow pos, currCol = nextCol pos,
                nextRow = clamp (nextRow pos + r dir) 0 (totalRows - 1),
                nextCol = clamp (nextCol pos + c dir) 0 (totalCols - 1)\<rparr>)
      else pos)"
  by pat_completeness auto
termination
proof (relation "measure (\<lambda>(g, dir, t, n, m, pos).
          lag (r dir) n (currRow pos) (nextRow pos) + lag (c dir) m (currCol pos) (nextCol pos))")
  show "wf (measure (\<lambda>(g, dir, t, n, m, pos).
          lag (r dir) n (currRow pos) (nextRow pos) + lag (c dir) m (currCol pos) (nextCol pos)))"
    by simp
next
  fix newGrid :: Grid and dir :: Vector and tile :: Tile
    and totalRows totalCols :: int and pos :: Pos
  assume a: "nextRow pos \<noteq> currRow pos \<or> nextCol pos \<noteq> currCol pos"
  have step: "clamp (x + d) 0 (n - 1) \<noteq> x \<Longrightarrow>
      potential d n (clamp (x + d) 0 (n - 1)) < potential d n x" for x d n
    unfolding potential_def clamp_def by (auto split: if_splits)
  have le: "lag d n nxt (clamp (nxt + d) 0 (n - 1)) \<le> lag d n cur nxt" for d n nxt cur
    using step[of nxt d n] unfolding lag_def
    by (cases "clamp (nxt + d) 0 (n - 1) = nxt") auto
  have less: "nxt \<noteq> cur \<Longrightarrow> lag d n nxt (clamp (nxt + d) 0 (n - 1)) < lag d n cur nxt"
    for d n nxt cur
    using step[of nxt d n] unfolding lag_def
    by (cases "clamp (nxt + d) 0 (n - 1) = nxt") auto
  from a show "((newGrid, dir, tile, totalRows, totalCols,
          \<lparr>currRow = nextRow pos, currCol = nextCol pos,
             nextRow = clamp (nextRow pos + r dir) 0 (totalRows - 1),
             nextCol = clamp (nextCol pos + c dir) 0 (totalCols - 1)\<rparr>),
         newGrid, dir, tile, totalRows, totalCols, pos)
        \<in> measure (\<lambda>(g, dir, t, n, m, pos).
          lag (r dir) n (currRow pos) (nextRow pos) + lag (c dir) m (currCol pos) (nextCol pos))"
    using le[of "r dir" totalRows "nextRow pos" "currRow pos"]
          le[of "c dir" totalCols "nextCol pos" "currCol pos"]
          less[of "nextRow pos" "currRow pos" "r dir" totalRows]
          less[of "nextCol pos" "currCol pos" "c dir" totalCols]
    by auto
qed

declare slide.simps [simp del]

text \<open>
  The state of the traversal is the grid being rewritten, the tiles reported so far and
  the move list. \<open>moveTile\<close> is the body of the inner \<open>forEach\<close> (lines 180-223) at one
  cell. The comparison \<open>tile.value === currentTile?.value\<close> is false on an empty cell.

  \<open>grid.slice(0)\<close> copies the outer array only, so the rows of the argument are the rows
  that are rewritten; the caller stores the returned grid and drops the argument.
\<close>

type_synonym MoveState = "Grid \<times> Tile list \<times> int list"

definition moveTile :: "Vector \<Rightarrow> int \<Rightarrow> int \<Rightarrow> int \<Rightarrow> int \<Rightarrow> MoveState \<Rightarrow> MoveState" where
  "moveTile dir totalRows totalCols row col st =
     (case st of (newGrid, tiles, moveStack) \<Rightarrow>
        (case cellAt newGrid row col of
           None \<Rightarrow> st
         | Some tile \<Rightarrow>
             (let pos = slide newGrid dir tile totalRows totalCols
                          \<lparr>currRow = row, currCol = col,
                           nextRow = clamp (row + r dir) 0 (totalRows - 1),
                           nextCol = clamp (col + c dir) 0 (totalCols - 1)\<rparr>;
                  currentTile = cellAt newGrid (currRow pos) (currCol pos)
              in if currRow pos \<noteq> row \<or> currCol pos \<noteq> col then
                   (let updatedTile =
                          tile\<lparr>r := currRow pos, c := currCol pos,
                               canMerge := (case currentTile of
                                              None \<Rightarrow> False
                                            | Some t \<Rightarrow> value tile = value t),
                               isNew := False, isMerging := False\<rparr>
                    in (setCell (setCell newGrid (currRow pos) (currCol pos)
                                   (Some updatedTile)) row col None,
                        tiles @ [updatedTile],
                        moveStack @ [index updatedTile]))
                 else (case currentTile of
                         None \<Rightarrow> st
                       | Some t \<Rightarrow>
                           (newGrid, tiles @ [t\<lparr>isNew := False, isMerging := False\<rparr>],
                            moveStack)))))"

text \<open>The result is the triple (tiles, grid, moveStack) of the returned object.\<close>

definition moveInDirection :: "Grid \<Rightarrow> Vector \<Rightarrow> error + (Tile list \<times> Grid \<times> int list)" where
  "moveInDirection grid dir =
     (case grid of
        [] \<Rightarrow> Inl TypeError
      | row0 # _ \<Rightarrow>
          (let totalRows = length grid;
               totalCols = length row0;
               (rows, cols) = createTraversalMap totalRows totalCols dir;
               (newGrid, tiles, moveStack) =
                  fold (\<lambda>row. fold (moveTile dir (int totalRows) (int totalCols) row) cols)
                       rows (grid, [], [])
           in Inr (tiles, newGrid, moveStack)))"

definition resetGameBoard :: "nat \<Rightarrow> nat \<Rightarrow> World \<Rightarrow> (Grid \<times> Tile list) \<times> World" where
  "resetGameBoard rows cols w =
     (let w0 = resetTileIndex w;
          grid = createEmptyGrid rows cols;
          emptyCells = getEmptyCellsLocation grid;
          (newTiles, w1) =
             createRandomTiles emptyCells (if rows * cols \<ge> 24 then 4 else 2) w0;
          grid' = fold (\<lambda>tile g. setCell g (r tile) (c tile) (Some tile)) newTiles grid
      in ((grid', newTiles), w1))"

section \<open>Session coordinator: the hook useGameBoard (lines 250-332)\<close>

text \<open>
  The hook's own state: the two refs, the tile list and the moving flag. The game status
  and the score live in the host; an effect that calls \<open>setGameStatus\<close> or \<open>addScore\<close>
  returns the value it passes, or \<open>None\<close> when it makes no call.
\<close>

record Session =
  gridRef :: Grid
  tiles :: "Tile list"
  pendingStackRef :: "int list"
  moving :: bool
  pauseRef :: bool

definition onMove :: "Vector \<Rightarrow> Session \<Rightarrow> error + Session" where
  "onMove dir s =
     (if pendingStackRef s = [] \<and> \<not> pauseRef s then
        (case moveInDirection (gridRef s) dir of
           Inl e \<Rightarrow> Inl e
         | Inr (newTiles, grid, moveStack) \<Rightarrow>
             (let s1 = s\<lparr>gridRef := grid, pendingStackRef := moveStack\<rparr>
              in if length moveStack > 0
                 then Inr (s1\<lparr>moving := True, tiles := sortTiles newTiles\<rparr>)
                 else Inr s1))
      else Inr s)"

text \<open>\<open>pop\<close> removes the last element and leaves an empty array empty.\<close>

definition onMovePending :: "Session \<Rightarrow> Session" where
  "onMovePending s =
     (let s1 = s\<lparr>pendingStackRef := butlast (pendingStackRef s)\<rparr>
      in s1\<lparr>moving := (length (pendingStackRef s1) > 0)\<rparr>)"

text \<open>The layout effect of lines 301-303 copies the \<open>pause\<close> parameter into the ref.\<close>

definition pauseEffect :: "bool \<Rightarrow> Session \<Rightarrow> Session" where
  "pauseEffect pause s = s\<lparr>pauseRef := pause\<rparr>"

text \<open>The layout effect of lines 287-299; the second component is the call of \<open>addScore\<close>.\<close>

definition settleEffect :: "Session \<Rightarrow> World \<Rightarrow> error + (Session \<times> int option \<times> World)" where
  "settleEffect s w =
     (if \<not> moving s then
        (case mergeAndCreateNewTiles (gridRef s) w of
           Inl e \<Rightarrow> Inl e
         | Inr ((grid, newTiles, score), w1) \<Rightarrow>
             Inr (s\<lparr>gridRef := grid, tiles := sortTiles newTiles\<rparr>, Some score, w1))
      else Inr (s, None, w))"

text \<open>
  The effect of lines 312-329; the second component is the call of \<open>setGameStatus\<close>. The
  operator \<open>&&\<close> evaluates \<open>canGameContinue\<close> only when the status is not lost.
\<close>

definition statusEffect ::
  "GameStatus \<Rightarrow> Session \<Rightarrow> World \<Rightarrow> error + (Session \<times> GameStatus option \<times> World)" where
  "statusEffect gameStatus s w =
     (if gameStatus = Restart then
        (case gridRef s of
           [] \<Rightarrow> Inl TypeError
         | row0 # _ \<Rightarrow>
             (let ((grid, newTiles), w1) =
                     resetGameBoard (length (gridRef s)) (length row0) w
              in Inr (s\<lparr>gridRef := grid, tiles := newTiles\<rparr>, Some Running, w1)))
      else if gameStatus = Running \<and> isWin (tiles s) then Inr (s, Some Win, w)
      else if gameStatus \<noteq> Lost then
        (case canGameContinue (gridRef s) (tiles s) of
           Inl e \<Rightarrow> Inl e
         | Inr continue \<Rightarrow>
             if \<not> continue then Inr (s, Some Lost, w) else Inr (s, None, w))
      else Inr (s, None, w))"

section \<open>Notions used to state the properties\<close>

text \<open>A world whose random source and clock return 0 at every call.\<close>

definition zeroWorld :: World where
  "zeroWorld = \<lparr>tileIndex = 0, randoms = (\<lambda>_. 0), randomCalls = 0,
                 dates = (\<lambda>_. 0), dateCalls = 0\<rparr>"

text \<open>A settled tile (no flag set) with the given position, index and value.\<close>

definition tileAt :: "int \<Rightarrow> int \<Rightarrow> int \<Rightarrow> int \<Rightarrow> Tile" where
  "tileAt i j ind v =
     \<lparr>r = i, c = j, index = ind, id' = showNum ind @ ''_0'', isNew = False,
      isMerging = False, canMerge = False, value = v\<rparr>"

text \<open>The tiles of a grid, in row-major order.\<close>

fun cellTiles :: "Cell \<Rightarrow> Tile list" where
  "cellTiles None = []"
| "cellTiles (Some t) = [t]"

definition rowTiles :: "Cell list \<Rightarrow> Tile list" where
  "rowTiles row = concat (map cellTiles row)"

definition gridTiles :: "Grid \<Rightarrow> Tile list" where
  "gridTiles grid = concat (map rowTiles grid)"

text \<open>A grid of \<open>n\<close> rows that all have \<open>m\<close> cells.\<close>

definition rect :: "Grid \<Rightarrow> nat \<Rightarrow> nat \<Rightarrow> bool" where
  "rect grid n m = (length grid = n \<and> list_all (\<lambda>row. length row = m) grid)"

text \<open>Every occupied cell holds a tile whose position is that cell.\<close>

definition placed :: "Grid \<Rightarrow> bool" where
  "placed grid =
     (\<forall>i \<in> {0..<length grid}. \<forall>j \<in> {0..<length (grid ! i)}.
         case grid ! i ! j of
           None \<Rightarrow> True
         | Some t \<Rightarrow> r t = int i \<and> c t = int j)"

text \<open>
  A grid is well formed when it has a row, all rows have the length of the first, and
  every occupied cell holds a tile whose position is that cell.
\<close>

definition wellFormed :: "Grid \<Rightarrow> bool" where
  "wellFormed grid =
     (grid \<noteq> [] \<and> rect grid (length grid) (length (hd grid)) \<and> placed grid)"

text \<open>The score that the flagged tiles of a grid are worth: twice the value of each.\<close>

definition mergedScore :: "Grid \<Rightarrow> int" where
  "mergedScore grid =
     sum_list (map (\<lambda>t. if canMerge t then 2 * value t else 0) (gridTiles grid))"

text \<open>A 2 by 2 board that is full and has no two equal neighbours, and a session on it.\<close>

definition stuckGrid :: Grid where
  "stuckGrid = [[Some (tileAt 0 0 0 2), Some (tileAt 0 1 1 4)],
                [Some (tileAt 1 0 2 4), Some (tileAt 1 1 3 2)]]"

definition stuckSession :: Session where
  "stuckSession = \<lparr>gridRef = stuckGrid, tiles = gridTiles stuckGrid,
                    pendingStackRef = [], moving = False, pauseRef = False\<rparr>"

text \<open>The number of empty cells of a grid.\<close>

definition countEmpty :: "Grid \<Rightarrow> nat" where
  "countEmpty grid = sum_list (map (\<lambda>row. length (filter (\<lambda>cell. cell = None) row)) grid)"

text \<open>
  The row 2, 2, 2, 2 as a board of one row, a session on it, and the row as a move to
  the left leaves it: two flagged tiles and two empty cells.
\<close>

definition rowGrid :: Grid where
  "rowGrid = [[Some (tileAt 0 0 0 2), Some (tileAt 0 1 1 2),
               Some (tileAt 0 2 2 2), Some (tileAt 0 3 3 2)]]"

definition rowSession :: Session where
  "rowSession = \<lparr>gridRef = rowGrid, tiles = gridTiles rowGrid,
                  pendingStackRef = [], moving = False, pauseRef = False\<rparr>"

definition flaggedGrid :: Grid where
  "flaggedGrid = [[Some ((tileAt 0 0 1 2)\<lparr>canMerge := True\<rparr>),
                   Some ((tileAt 0 1 3 2)\<lparr>canMerge := True\<rparr>), None, None]]"

text \<open>A session whose tile list holds a tile of value 2048.\<close>

definition winSession :: Session where
  "winSession = \<lparr>gridRef = [[Some (tileAt 0 0 0 2048), None]], tiles = [tileAt 0 0 0 2048],
                  pendingStackRef = [], moving = False, pauseRef = False\<rparr>"

text \<open>
  The row 2, 2, 2, 2 in the middle of a move to the left, after the cells of columns 0
  and 1 have been visited; as a move to the right leaves it; and the stuck board with
  one pair of equal neighbours.
\<close>

definition midGrid :: Grid where
  "midGrid = [[Some ((tileAt 0 0 1 2)\<lparr>canMerge := True\<rparr>), None,
               Some (tileAt 0 2 2 2), Some (tileAt 0 3 3 2)]]"

definition flaggedGridRight :: Grid where
  "flaggedGridRight = [[None, None, Some ((tileAt 0 2 0 2)\<lparr>canMerge := True\<rparr>),
                        Some ((tileAt 0 3 2 2)\<lparr>canMerge := True\<rparr>)]]"

definition pairGrid :: Grid where
  "pairGrid = [[Some (tileAt 0 0 0 2), Some (tileAt 0 1 1 4)],
               [Some (tileAt 1 0 2 4), Some (tileAt 1 1 3 4)]]"

text \<open>A cell of a board of \<open>n\<close> rows and \<open>m\<close> columns.\<close>

definition inBoard :: "int \<Rightarrow> int \<Rightarrow> int \<Rightarrow> int \<Rightarrow> bool" where
  "inBoard n m i j = (0 \<le> i \<and> i < n \<and> 0 \<le> j \<and> j < m)"

text \<open>
  Two invariants of the traversal: the grid of the state keeps its shape and its tiles
  their cells; the grid of the state is still the given one and no move is recorded.
\<close>

definition shaped :: "nat \<Rightarrow> nat \<Rightarrow> MoveState \<Rightarrow> bool" where
  "shaped n m st = (rect (fst st) n m \<and> placed (fst st))"

definition untouched :: "Grid \<Rightarrow> MoveState \<Rightarrow> bool" where
  "untouched g st = (fst st = g \<and> snd (snd st) = [])"

text \<open>
  What a tile is worth once the merges are finalized: a flagged tile doubles. A
  coordinate \<open>b\<close> is ahead of \<open>a\<close> when it lies at \<open>a\<close> or beyond it in the direction of
  the component \<open>d\<close>; a cell is before another when the traversal of the direction
  visits it earlier.
\<close>

definition weight :: "Tile \<Rightarrow> int" where
  "weight t = (if canMerge t then 2 * value t else value t)"

definition ahead :: "int \<Rightarrow> int \<Rightarrow> int \<Rightarrow> bool" where
  "ahead d a b = ((0 < d \<longrightarrow> a \<le> b) \<and> (d < 0 \<longrightarrow> b \<le> a) \<and> (d = 0 \<longrightarrow> b = a))"

definition before :: "Vector \<Rightarrow> int \<times> int \<Rightarrow> int \<times> int \<Rightarrow> bool" where
  "before dir a b =
     ((if 0 < r dir then fst b < fst a else fst a < fst b) \<or>
      (fst a = fst b \<and> (if 0 < c dir then snd b < snd a else snd a < snd b)))"

text \<open>
  A third invariant of the traversal: the grid keeps its shape, the worth of its tiles
  is the given one, and every flagged tile is in a cell that has been visited.
\<close>

definition flagsWithin :: "(int \<times> int) set \<Rightarrow> Grid \<Rightarrow> bool" where
  "flagsWithin V g = (\<forall>i j t. cellAt g i j = Some t \<and> canMerge t \<longrightarrow> (i, j) \<in> V)"

definition conserving :: "nat \<Rightarrow> nat \<Rightarrow> int \<Rightarrow> (int \<times> int) list \<Rightarrow> MoveState \<Rightarrow> bool" where
  "conserving n m worth visited st =
     (shaped n m st \<and> sum_list (map weight (gridTiles (fst st))) = worth \<and>
      flagsWithin (set visited) (fst st))"

text \<open>
  Every tile is pressed against the edge that the direction points to, and none can
  merge: the next cell in the direction is off the board (the clamped step stays in
  place) or holds a tile of another value or a tile that is already flagged.
\<close>

definition pressed :: "Grid \<Rightarrow> Vector \<Rightarrow> bool" where
  "pressed grid dir =
     (\<forall>i \<in> {0..<length grid}. \<forall>j \<in> {0..<length (hd grid)}.
        case cellAt grid (int i) (int j) of
          None \<Rightarrow> True
        | Some tile \<Rightarrow>
            (let nextRow = clamp (int i + r dir) 0 (int (length grid) - 1);
                 nextCol = clamp (int j + c dir) 0 (int (length (hd grid)) - 1)
             in (nextRow = int i \<and> nextCol = int j) \<or>
                (case cellAt grid nextRow nextCol of
                   None \<Rightarrow> False
                 | Some nextTile \<Rightarrow> value nextTile \<noteq> value tile \<or> canMerge nextTile)))"

text \<open>
  The two conditions of a lost board, in the words of the specification: the grid is
  completely full; and some tile has a neighbour on the board, one step away along a
  row or a column, that is empty or holds an equal value.
\<close>

definition gridFull :: "Grid \<Rightarrow> bool" where
  "gridFull grid = list_all (list_all (\<lambda>cell. cell \<noteq> None)) grid"

definition hasOpening :: "Grid \<Rightarrow> bool" where
  "hasOpening grid =
     (\<exists>i \<in> {0..<length grid}. \<exists>j \<in> {0..<length (hd grid)}.
      \<exists>i' \<in> {0..<length grid}. \<exists>j' \<in> {0..<length (hd grid)}.
        ((i' = i \<and> (j' = Suc j \<or> j = Suc j')) \<or> (j' = j \<and> (i' = Suc i \<or> i = Suc i'))) \<and>
        (case grid ! i ! j of
           None \<Rightarrow> False
         | Some t \<Rightarrow> (case grid ! i' ! j' of None \<Rightarrow> True | Some t' \<Rightarrow> value t' = value t)))"

section \<open>Spawner: how many tiles\<close>

lemma length_shuffleLoop: "length (fst (shuffleLoop k xs w)) = length xs"
  by (induction k arbitrary: xs w) (auto simp: Let_def split: prod.splits)

lemma length_shuffle: "length (fst (shuffle xs w)) = length xs"
  by (simp add: shuffle_def length_shuffleLoop)

lemma length_createTiles: "length (fst (createTiles locs w)) = length locs"
  by (induction locs arbitrary: w) (simp_all add: Let_def case_prod_beta)

lemma isNew_createNewTile: "isNew (fst (createNewTile i j w))"
  by (simp add: createNewTile_def Let_def case_prod_beta)

lemma isNew_createTiles: "t \<in> set (fst (createTiles locs w)) \<Longrightarrow> isNew t"
  by (induction locs arbitrary: w) (auto simp: Let_def case_prod_beta isNew_createNewTile)

lemma length_createRandomTiles:
  "length (fst (createRandomTiles cells n w)) = min n (length cells)"
  using length_shuffle[of cells w]
  by (auto simp: createRandomTiles_def Let_def length_createTiles split: prod.splits)

lemma isNew_createRandomTiles: "t \<in> set (fst (createRandomTiles cells n w)) \<Longrightarrow> isNew t"
  by (auto simp: createRandomTiles_def Let_def split: prod.splits if_splits
           dest: isNew_createTiles[of t _ _])

lemma length_emptyRow:
  "length (concat (map (\<lambda>(j, cell). (case cell of None \<Rightarrow> [\<lparr>r = i, c = int j\<rparr>] | Some _ \<Rightarrow> []))
      (enumerate n row))) = length (filter (\<lambda>cell. cell = None) row)"
  by (induction row arbitrary: n) (auto split: option.splits)

lemma length_emptyRows:
  "length (concat (map (\<lambda>(i, row).
        concat (map (\<lambda>(j, cell).
          (case cell of None \<Rightarrow> [\<lparr>r = int i, c = int j\<rparr>] | Some _ \<Rightarrow> []))
          (enumerate 0 row)))
       (enumerate n grid))) = countEmpty grid"
  by (induction grid arbitrary: n) (auto simp: countEmpty_def length_emptyRow)

lemma length_getEmptyCellsLocation: "length (getEmptyCellsLocation grid) = countEmpty grid"
  by (simp add: getEmptyCellsLocation_def length_emptyRows)

lemma countEmpty_createEmptyGrid: "countEmpty (createEmptyGrid rows cols) = rows * cols"
  by (simp add: countEmpty_def createEmptyGrid_def createRow_def sum_list_triv comp_def)

lemma countEmpty_map: "countEmpty (map (map (map_option f)) grid) = countEmpty grid"
  by (simp add: countEmpty_def comp_def filter_map)

lemma length_resetGameBoard:
  "length (snd (fst (resetGameBoard rows cols w))) =
     min (if rows * cols \<ge> 24 then 4 else 2) (rows * cols)"
  using length_createRandomTiles[of "getEmptyCellsLocation (createEmptyGrid rows cols)"
          "if rows * cols \<ge> 24 then 4 else 2" "resetTileIndex w"]
  by (auto simp: resetGameBoard_def Let_def length_getEmptyCellsLocation
        countEmpty_createEmptyGrid split: prod.splits)

section \<open>Merge finalizer: what a settle cycle returns\<close>

lemma mergeRow_eq:
  "mergeRow row (ts, sc) =
     (map (map_option mergeTile) row, ts @ map mergeTile (rowTiles row),
      sc + sum_list (map (\<lambda>t. if canMerge t then 2 * value t else 0) (rowTiles row)))"
  by (induction row "(ts, sc)" arbitrary: ts sc rule: mergeRow.induct)
     (auto simp: rowTiles_def Let_def mergeTile_def)

lemma mergeGrid_eq:
  "mergeGrid grid (ts, sc) =
     (map (map (map_option mergeTile)) grid, ts @ map mergeTile (gridTiles grid),
      sc + sum_list (map (\<lambda>t. if canMerge t then 2 * value t else 0) (gridTiles grid)))"
  by (induction grid arbitrary: ts sc) (auto simp: gridTiles_def mergeRow_eq)

lemma placeTiles_tiles: "snd (placeTiles newTiles (g, ts)) = ts @ newTiles"
  unfolding placeTiles_def
  by (induction newTiles arbitrary: g ts) auto

text \<open>
  On a grid that has a row, the settle cycle returns: its tile list is the merged tiles
  of the grid in row-major order followed by the spawned tiles, and its score is the
  score of the flagged tiles.
\<close>

lemma mergeAndCreateNewTiles_eq:
  assumes "grid \<noteq> []"
  shows "\<exists>g' w'. mergeAndCreateNewTiles grid w =
     Inr ((g', map mergeTile (gridTiles grid) @
              fst (createRandomTiles
                    (getEmptyCellsLocation (map (map (map_option mergeTile)) grid))
                    (if length grid * length (hd grid) \<ge> 24 then 2 else 1) w),
           mergedScore grid), w')"
proof -
  let ?merged = "map (map (map_option mergeTile)) grid"
  let ?spawn = "createRandomTiles (getEmptyCellsLocation ?merged)
                    (if length grid * length (hd grid) \<ge> 24 then 2 else 1) w"
  obtain row0 rest where g: "grid = row0 # rest"
    using assms by (cases grid) auto
  obtain nt w1 where cr: "?spawn = (nt, w1)"
    by (cases ?spawn)
  obtain g2 ts2 where pl: "placeTiles nt (?merged, map mergeTile (gridTiles grid)) = (g2, ts2)"
    by (cases "placeTiles nt (?merged, map mergeTile (gridTiles grid))")
  have ts2: "ts2 = map mergeTile (gridTiles grid) @ nt"
    using placeTiles_tiles[of nt ?merged "map mergeTile (gridTiles grid)"] pl by simp
  have mg: "mergeGrid grid ([], 0) = (?merged, map mergeTile (gridTiles grid), mergedScore grid)"
    by (simp add: mergeGrid_eq mergedScore_def)
  show ?thesis
    unfolding mergeAndCreateNewTiles_def
    using cr pl ts2 mg unfolding g by (simp add: Let_def)
qed

lemma isNew_mergeTile: "\<not> isNew (mergeTile t)"
  by (simp add: mergeTile_def)

lemma filter_isNew_settled:
  "filter isNew (map mergeTile ts @ fst (createRandomTiles cells n w)) =
     fst (createRandomTiles cells n w)"
proof -
  have "filter isNew (map mergeTile ts) = []"
    by (induction ts) (simp_all add: isNew_mergeTile)
  moreover have "filter isNew (fst (createRandomTiles cells n w)) =
      fst (createRandomTiles cells n w)"
    using isNew_createRandomTiles[of _ cells n w] by (simp add: filter_id_conv)
  ultimately show ?thesis by simp
qed

text \<open>
  C2, as the code has it: a full board reset spawns 4 tiles when the board area is at
  least 24 cells and 2 tiles when it is smaller (never more than the board has cells);
  a settle cycle spawns 2 tiles when the area is at least 24 and 1 tile when it is
  smaller (never more than there are empty cells). The spawned tiles of a settle cycle
  are the tiles of the returned list that are new.
\<close>

theorem spawn_count_policy:
  "length (snd (fst (resetGameBoard rows cols w))) =
      min (if rows * cols \<ge> 24 then 4 else 2) (rows * cols) \<and>
   (grid \<noteq> [] \<longrightarrow>
      (\<exists>g' ts sc w'. mergeAndCreateNewTiles grid w = Inr ((g', ts, sc), w') \<and>
          length (filter isNew ts) =
            min (if length grid * length (hd grid) \<ge> 24 then 2 else 1)
                (length (getEmptyCellsLocation grid))))"
proof (intro conjI impI)
  show "length (snd (fst (resetGameBoard rows cols w))) =
      min (if rows * cols \<ge> 24 then 4 else 2) (rows * cols)"
    by (rule length_resetGameBoard)
next
  assume "grid \<noteq> []"
  from mergeAndCreateNewTiles_eq[OF this, of w] obtain g' w' where
    eq: "mergeAndCreateNewTiles grid w =
     Inr ((g', map mergeTile (gridTiles grid) @
              fst (createRandomTiles
                    (getEmptyCellsLocation (map (map (map_option mergeTile)) grid))
                    (if length grid * length (hd grid) \<ge> 24 then 2 else 1) w),
           mergedScore grid), w')"
    by blast
  have "length (filter isNew (map mergeTile (gridTiles grid) @
              fst (createRandomTiles
                    (getEmptyCellsLocation (map (map (map_option mergeTile)) grid))
                    (if length grid * length (hd grid) \<ge> 24 then 2 else 1) w))) =
        min (if length grid * length (hd grid) \<ge> 24 then 2 else 1)
            (length (getEmptyCellsLocation grid))"
    by (simp only: filter_isNew_settled length_createRandomTiles
          length_getEmptyCellsLocation countEmpty_map)
  with eq show "\<exists>g' ts sc w'. mergeAndCreateNewTiles grid w = Inr ((g', ts, sc), w') \<and>
          length (filter isNew ts) =
            min (if length grid * length (hd grid) \<ge> 24 then 2 else 1)
                (length (getEmptyCellsLocation grid))"
    by blast
qed

theorem spawn_count_policy_witness:
  "length (snd (fst (resetGameBoard 5 5 zeroWorld))) = 4 \<and>
   length (snd (fst (resetGameBoard 4 4 zeroWorld))) = 2 \<and>
   (\<exists>g' ts sc w'. mergeAndCreateNewTiles flaggedGrid zeroWorld = Inr ((g', ts, sc), w') \<and>
       length (filter isNew ts) = 1)"
proof -
  have ne: "flaggedGrid \<noteq> []"
    by (simp add: flaggedGrid_def)
  have cnt: "length (getEmptyCellsLocation flaggedGrid) = 2"
    by (simp add: length_getEmptyCellsLocation countEmpty_def flaggedGrid_def)
  have len: "length flaggedGrid * length (hd flaggedGrid) = 4"
    by (simp add: flaggedGrid_def)
  show ?thesis
    using spawn_count_policy[of 5 5 zeroWorld flaggedGrid]
          spawn_count_policy[of 4 4 zeroWorld flaggedGrid] ne cnt len
    by simp
qed

text \<open>
  The claim C2 as stated fails: on a board of 4 by 4 cells (area 16, below 24) a full
  reset spawns 2 tiles, not 4.
\<close>

theorem reset_small_board_counterexample:
  "length (snd (fst (resetGameBoard 4 4 zeroWorld))) = 2 \<and>
   length (snd (fst (resetGameBoard 4 4 zeroWorld))) \<noteq> 4"
  by (simp add: length_resetGameBoard)

text \<open>
  C8: on every grid that has a row the settle cycle returns, and the score it returns is
  the sum of the doubled values of the tiles whose canMerge flag was set (the flagged
  tiles of the grid it was given); no other tile and no spawned tile adds to it,
  whatever the random source draws.
\<close>

theorem settle_score:
  "grid \<noteq> [] \<Longrightarrow>
     \<exists>g' ts w'. mergeAndCreateNewTiles grid w = Inr ((g', ts, mergedScore grid), w')"
  using mergeAndCreateNewTiles_eq[of grid w] by blast

theorem settle_score_witness:
  "flaggedGrid \<noteq> [] \<and>
   (\<exists>g' ts w'. mergeAndCreateNewTiles flaggedGrid zeroWorld = Inr ((g', ts, 8), w'))"
proof -
  have ne: "flaggedGrid \<noteq> []"
    by (simp add: flaggedGrid_def)
  have sc: "mergedScore flaggedGrid = 8"
    by (simp add: mergedScore_def flaggedGrid_def gridTiles_def rowTiles_def tileAt_def)
  show ?thesis
    using settle_score[OF ne, of zeroWorld] ne sc by simp
qed

section \<open>Grid access: reads, writes and shape\<close>

lemma clamp_in_range: "0 < n \<Longrightarrow> 0 \<le> clamp d 0 (n - 1) \<and> clamp d 0 (n - 1) < n"
  by (auto simp: clamp_def)

lemma fold_invariant:
  "(\<And>x s. x \<in> set xs \<Longrightarrow> P s \<Longrightarrow> P (f x s)) \<Longrightarrow> P s \<Longrightarrow> P (fold f xs s)"
  by (induction xs arbitrary: s) auto

lemma fold_growth_inv:
  fixes k :: nat and f :: "'a \<Rightarrow> 's \<Rightarrow> 's" and cnt :: "'s \<Rightarrow> nat"
  assumes "\<And>x s. x \<in> set xs \<Longrightarrow> P s \<Longrightarrow> P (f x s) \<and> cnt (f x s) \<le> cnt s + k"
  shows "P s \<Longrightarrow> P (fold f xs s) \<and> cnt (fold f xs s) \<le> cnt s + k * length xs"
  using assms
proof (induction xs arbitrary: s)
  case Nil
  then show ?case by simp
next
  case (Cons x xs)
  have 1: "P (f x s) \<and> cnt (f x s) \<le> cnt s + k" using Cons.prems by simp
  have 2: "P (fold f xs (f x s)) \<and> cnt (fold f xs (f x s)) \<le> cnt (f x s) + k * length xs"
    using Cons.IH[of "f x s"] 1 Cons.prems(2) by simp
  from 1 2 show ?case by simp
qed

lemma placed_cellAt:
  "placed grid \<longleftrightarrow> (\<forall>i j t. cellAt grid i j = Some t \<longrightarrow> r t = i \<and> c t = j)"
proof
  assume p: "placed grid"
  show "\<forall>i j t. cellAt grid i j = Some t \<longrightarrow> r t = i \<and> c t = j"
  proof (intro allI impI)
    fix i j t assume a: "cellAt grid i j = Some t"
    then have rng: "0 \<le> i" "nat i < length grid" "0 \<le> j" "nat j < length (grid ! nat i)"
      and eq: "grid ! nat i ! nat j = Some t"
      by (auto simp: cellAt_def split: if_splits)
    from p rng eq have "r t = int (nat i) \<and> c t = int (nat j)"
      unfolding placed_def by (fastforce split: option.splits)
    with rng show "r t = i \<and> c t = j" by simp
  qed
next
  assume a: "\<forall>i j t. cellAt grid i j = Some t \<longrightarrow> r t = i \<and> c t = j"
  show "placed grid"
    unfolding placed_def
  proof (intro ballI)
    fix i j assume "i \<in> {0..<length grid}" "j \<in> {0..<length (grid ! i)}"
    then have "cellAt grid (int i) (int j) = grid ! i ! j"
      by (simp add: cellAt_def)
    with a[rule_format, of "int i" "int j"]
    show "case grid ! i ! j of None \<Rightarrow> True | Some t \<Rightarrow> r t = int i \<and> c t = int j"
      by (auto split: option.splits)
  qed
qed

lemma placedD:
  "placed g \<Longrightarrow> i < length g \<Longrightarrow> j < length (g ! i) \<Longrightarrow> g ! i ! j = Some t \<Longrightarrow>
     r t = int i \<and> c t = int j"
proof -
  assume p: "placed g" and i: "i < length g" and j: "j < length (g ! i)" and t: "g ! i ! j = Some t"
  from p have "\<forall>i \<in> {0..<length g}. \<forall>j \<in> {0..<length (g ! i)}.
         case g ! i ! j of None \<Rightarrow> True | Some t \<Rightarrow> r t = int i \<and> c t = int j"
    unfolding placed_def .
  with i j have "case g ! i ! j of None \<Rightarrow> True | Some t \<Rightarrow> r t = int i \<and> c t = int j"
    by simp
  with t show ?thesis by simp
qed

lemma rect_row: "rect g n m \<Longrightarrow> i < n \<Longrightarrow> length (g ! i) = m"
  by (auto simp: rect_def list_all_length)

lemma rect_setCell:
  "rect g n m \<Longrightarrow> 0 \<le> i \<Longrightarrow> i < int n \<Longrightarrow> 0 \<le> j \<Longrightarrow> j < int m \<Longrightarrow> rect (setCell g i j v) n m"
  by (auto simp: rect_def setCell_def setAt_def list_all_length nth_list_update)

lemma cellAt_setCell:
  "rect g n m \<Longrightarrow> 0 \<le> i \<Longrightarrow> i < int n \<Longrightarrow> 0 \<le> j \<Longrightarrow> j < int m \<Longrightarrow>
   cellAt (setCell g i j v) i' j' = (if i' = i \<and> j' = j then v else cellAt g i' j')"
  by (auto simp: rect_def setCell_def setAt_def cellAt_def list_all_length nth_list_update)

lemma cellAt_nth: "rect g n m \<Longrightarrow> i < n \<Longrightarrow> j < m \<Longrightarrow> cellAt g (int i) (int j) = g ! i ! j"
  using rect_row[of g n m i] by (simp add: cellAt_def rect_def)

lemma nth_setAt_other:
  "k \<noteq> j \<Longrightarrow>
     (if k < length (setAt row j v) then setAt row j v ! k else None) =
     (if k < length row then row ! k else None)"
proof (cases "j < length row")
  case True
  assume "k \<noteq> j"
  with True show ?thesis by (simp add: setAt_def)
next
  case False
  assume kj: "k \<noteq> j"
  show ?thesis
  proof (cases "k < length row")
    case True
    with False show ?thesis by (simp add: setAt_def nth_append)
  next
    case k: False
    show ?thesis
    proof (cases "k < j")
      case True
      then have "k - length row < j - length row" using k False by arith
      with True k False show ?thesis by (simp add: setAt_def nth_append)
    next
      case False
      with kj have "j < k" by simp
      with k \<open>\<not> j < length row\<close> show ?thesis by (simp add: setAt_def)
    qed
  qed
qed

lemma cellAt_setCell_other:
  assumes "i' \<noteq> i \<or> j' \<noteq> j"
  shows "cellAt (setCell g i j v) i' j' = cellAt g i' j'"
proof (cases "0 \<le> i \<and> nat i < length g \<and> 0 \<le> j")
  case False
  then have "setCell g i j v = g" unfolding setCell_def by (simp only: if_False)
  then show ?thesis by simp
next
  case inr: True
  show ?thesis
  proof (cases "0 \<le> i' \<and> nat i' < length g \<and> 0 \<le> j'")
    case False
    then show ?thesis using inr by (auto simp: setCell_def cellAt_def)
  next
    case True
    show ?thesis
    proof (cases "i' = i")
      case False
      then have "nat i' \<noteq> nat i" using True inr by auto
      then show ?thesis using True inr by (simp add: setCell_def cellAt_def)
    next
      case same: True
      then have "nat j' \<noteq> nat j" using assms True inr by auto
      from nth_setAt_other[OF this, of "g ! nat i" v]
      have eq: "(if nat j' < length (setAt (g ! nat i) (nat j) v)
                 then setAt (g ! nat i) (nat j) v ! nat j' else None) =
                (if nat j' < length (g ! nat i) then g ! nat i ! nat j' else None)" .
      have "cellAt (setCell g i j v) i' j' =
            (if nat j' < length (setAt (g ! nat i) (nat j) v)
             then setAt (g ! nat i) (nat j) v ! nat j' else None)"
        using True inr same by (simp add: setCell_def cellAt_def)
      also note eq
      also have "(if nat j' < length (g ! nat i) then g ! nat i ! nat j' else None) = cellAt g i' j'"
        using True same by (simp add: cellAt_def)
      finally show ?thesis .
    qed
  qed
qed

lemma fold_product:
  "fold (\<lambda>row. fold (f row) cols) rows s = fold (\<lambda>(row, col). f row col) (List.product rows cols) s"
proof (induction rows arbitrary: s)
  case Nil
  then show ?case by simp
next
  case (Cons a rows)
  have "fold (\<lambda>(row, col). f row col) (map (Pair a) cols) s = fold (f a) cols s"
    by (simp add: fold_map comp_def)
  then show ?case using Cons by simp
qed

lemma fold_prefix_invariant:
  assumes "P [] s"
    and "\<And>pre x post s'. xs = pre @ x # post \<Longrightarrow> P pre s' \<Longrightarrow> P (pre @ [x]) (f x s')"
  shows "P xs (fold f xs s)"
  using assms(2)
proof (induction xs rule: rev_induct)
  case Nil
  then show ?case using assms(1) by simp
next
  case (snoc x xs)
  have "P xs (fold f xs s)"
  proof (rule snoc.IH)
    fix pre y post s'
    assume "xs = pre @ y # post" "P pre s'"
    then show "P (pre @ [y]) (f y s')"
      using snoc.prems[of pre y "post @ [x]" s'] by simp
  qed
  then show ?case
    using snoc.prems[of xs x "[]" "fold f xs s"] by simp
qed

section \<open>The tiles of a grid\<close>

lemma length_rowTiles: "length (rowTiles row) + length (filter (\<lambda>cell. cell = None) row) = length row"
  by (induction row) (auto simp: rowTiles_def split: option.splits)

lemma length_gridTiles: "rect g n m \<Longrightarrow> length (gridTiles g) + countEmpty g = n * m"
proof (induction g arbitrary: n)
  case Nil
  then show ?case by (simp add: rect_def gridTiles_def countEmpty_def)
next
  case (Cons row g)
  then obtain k where n: "n = Suc k" and rk: "rect g k m" and len: "length row = m"
    by (cases n) (auto simp: rect_def)
  from Cons.IH[OF rk] length_rowTiles[of row] len n show ?case
    by (simp add: gridTiles_def countEmpty_def)
qed

lemma set_rowTiles: "t \<in> set (rowTiles row) \<longleftrightarrow> Some t \<in> set row"
proof (induction row)
  case Nil
  then show ?case by (simp add: rowTiles_def)
next
  case (Cons cell row)
  then show ?case by (cases cell) (auto simp: rowTiles_def)
qed

lemma rowTiles_Cons: "rowTiles (cell # row) = cellTiles cell @ rowTiles row"
  by (simp add: rowTiles_def)

lemma gridTiles_Cons: "gridTiles (row # g) = rowTiles row @ gridTiles g"
  by (simp add: gridTiles_def)

lemma set_gridTiles:
  "t \<in> set (gridTiles g) \<longleftrightarrow> (\<exists>i<length g. \<exists>j<length (g ! i). g ! i ! j = Some t)"
proof -
  have "t \<in> set (gridTiles g) \<longleftrightarrow> (\<exists>row \<in> set g. Some t \<in> set row)"
    by (auto simp: gridTiles_def set_rowTiles)
  also have "\<dots> \<longleftrightarrow> (\<exists>i<length g. \<exists>j<length (g ! i). g ! i ! j = Some t)"
    by (metis in_set_conv_nth)
  finally show ?thesis .
qed

lemma distinct_positions_of_columns:
  "distinct (map c ts) \<Longrightarrow> distinct (map (\<lambda>t. (r t, c t)) ts)"
  by (induction ts) (auto simp: image_iff)

lemma rowTiles_columns:
  "(\<forall>j<length row. \<forall>t. row ! j = Some t \<longrightarrow> c t = int (k + j)) \<Longrightarrow>
     distinct (map c (rowTiles row)) \<and> (\<forall>t \<in> set (rowTiles row). int k \<le> c t)"
proof (induction row arbitrary: k)
  case Nil
  then show ?case by (simp add: rowTiles_def)
next
  case (Cons cell row)
  have "\<forall>j<length row. \<forall>t. row ! j = Some t \<longrightarrow> c t = int (Suc k + j)"
    using Cons.prems by (auto dest: spec[of _ "Suc _"])
  from Cons.IH[OF this] have ih: "distinct (map c (rowTiles row))" "\<forall>t \<in> set (rowTiles row). int (Suc k) \<le> c t"
    by simp_all
  show ?case
  proof (cases cell)
    case None
    then show ?thesis using ih by (fastforce simp: rowTiles_Cons)
  next
    case (Some t0)
    then have "c t0 = int k" using Cons.prems by (auto dest: spec[of _ 0])
    then show ?thesis using ih Some by (fastforce simp: rowTiles_Cons)
  qed
qed

lemma gridTiles_positions:
  "(\<forall>i<length g. \<forall>j<length (g ! i). \<forall>t. g ! i ! j = Some t \<longrightarrow> r t = int (k + i) \<and> c t = int j) \<Longrightarrow>
     distinct (map (\<lambda>t. (r t, c t)) (gridTiles g)) \<and> (\<forall>t \<in> set (gridTiles g). int k \<le> r t)"
proof (induction g arbitrary: k)
  case Nil
  then show ?case by (simp add: gridTiles_def)
next
  case (Cons row g)
  have "\<forall>i<length g. \<forall>j<length (g ! i). \<forall>t. g ! i ! j = Some t \<longrightarrow> r t = int (Suc k + i) \<and> c t = int j"
    using Cons.prems by (auto dest: spec[of _ "Suc _"])
  from Cons.IH[OF this] have ih: "distinct (map (\<lambda>t. (r t, c t)) (gridTiles g))"
    "\<forall>t \<in> set (gridTiles g). int (Suc k) \<le> r t" by simp_all
  have row: "\<forall>j<length row. \<forall>t. row ! j = Some t \<longrightarrow> r t = int k \<and> c t = int (0 + j)"
    using Cons.prems by (auto dest: spec[of _ 0])
  then have "distinct (map c (rowTiles row))"
    using rowTiles_columns[of row 0] by simp
  then have d: "distinct (map (\<lambda>t. (r t, c t)) (rowTiles row))"
    by (rule distinct_positions_of_columns)
  have rk: "\<forall>t \<in> set (rowTiles row). r t = int k"
  proof
    fix t assume "t \<in> set (rowTiles row)"
    then have "Some t \<in> set row" by (simp add: set_rowTiles)
    then obtain j where "j < length row" "row ! j = Some t"
      by (auto simp: in_set_conv_nth)
    with row show "r t = int k" by blast
  qed
  have disj: "(\<lambda>t. (r t, c t)) ` set (rowTiles row) \<inter> (\<lambda>t. (r t, c t)) ` set (gridTiles g) = {}"
    using rk ih(2) by fastforce
  have low: "\<forall>t \<in> set (rowTiles row @ gridTiles g). int k \<le> r t"
    using rk ih(2) by fastforce
  show ?case
    using ih(1) d disj low by (simp add: gridTiles_Cons)
qed

lemma placed_positions:
  assumes "placed g"
  shows "distinct (map (\<lambda>t. (r t, c t)) (gridTiles g))"
proof -
  have "\<forall>i<length g. \<forall>j<length (g ! i). \<forall>t. g ! i ! j = Some t \<longrightarrow> r t = int (0 + i) \<and> c t = int j"
    using assms unfolding placed_def by (fastforce split: option.splits)
  from gridTiles_positions[OF this] show ?thesis by simp
qed

lemma cellAt_gridTiles: "cellAt g i j = Some t \<Longrightarrow> t \<in> set (gridTiles g)"
  unfolding set_gridTiles
  by (rule exI[of _ "nat i"], rule conjI[rotated], rule exI[of _ "nat j"])
     (auto simp: cellAt_def split: if_splits)

lemma gridTiles_merged:
  "gridTiles (map (map (map_option f)) g) = map f (gridTiles g)"
proof -
  have row: "rowTiles (map (map_option f) row) = map f (rowTiles row)" for row
  proof (induction row)
    case Nil
    then show ?case by (simp add: rowTiles_def)
  next
    case (Cons cell row)
    then show ?case by (cases cell) (simp_all add: rowTiles_Cons)
  qed
  show ?thesis
    by (induction g) (simp_all add: gridTiles_Cons row, simp add: gridTiles_def)
qed

lemma sum_rowTiles_update:
  "j < length row \<Longrightarrow>
     sum_list (map f (rowTiles (row[j := v]))) =
       sum_list (map f (rowTiles row)) - sum_list (map f (cellTiles (row ! j)))
         + sum_list (map (f :: Tile \<Rightarrow> int) (cellTiles v))"
proof (induction row arbitrary: j)
  case Nil
  then show ?case by simp
next
  case (Cons cell row)
  show ?case
  proof (cases j)
    case 0
    then show ?thesis by (simp add: rowTiles_Cons)
  next
    case (Suc k)
    then show ?thesis using Cons.IH[of k] Cons.prems by (simp add: rowTiles_Cons)
  qed
qed

lemma sum_gridTiles_update:
  "i < length g \<Longrightarrow>
     sum_list (map f (gridTiles (g[i := row']))) =
       sum_list (map f (gridTiles g)) - sum_list (map f (rowTiles (g ! i)))
         + sum_list (map (f :: Tile \<Rightarrow> int) (rowTiles row'))"
proof (induction g arbitrary: i)
  case Nil
  then show ?case by simp
next
  case (Cons row g)
  show ?case
  proof (cases i)
    case 0
    then show ?thesis by (simp add: gridTiles_Cons)
  next
    case (Suc k)
    then show ?thesis using Cons.IH[of k] Cons.prems by (simp add: gridTiles_Cons)
  qed
qed

lemma sum_setCell:
  assumes "rect g n m" and "inBoard (int n) (int m) i j"
  shows "sum_list (map f (gridTiles (setCell g i j v))) =
       sum_list (map f (gridTiles g)) - sum_list (map f (cellTiles (cellAt g i j)))
         + sum_list (map (f :: Tile \<Rightarrow> int) (cellTiles v))"
proof -
  have i: "0 \<le> i" "nat i < length g" and j: "0 \<le> j" "nat j < length (g ! nat i)"
    using assms rect_row[OF assms(1), of "nat i"] by (auto simp: inBoard_def rect_def)
  have sc: "setCell g i j v = g[nat i := (g ! nat i)[nat j := v]]"
    using i j by (simp add: setCell_def setAt_def)
  have ca: "cellAt g i j = g ! nat i ! nat j"
    using i j by (simp add: cellAt_def)
  show ?thesis
    unfolding sc ca
    using sum_gridTiles_update[OF i(2), of f "(g ! nat i)[nat j := v]"]
          sum_rowTiles_update[OF j(2), of f v]
    by simp
qed

section \<open>Move engine: the sliding loop and one step of the traversal\<close>

lemma slide_in_board:
  shows "inBoard n m (currRow pos) (currCol pos) \<Longrightarrow> inBoard n m (nextRow pos) (nextCol pos) \<Longrightarrow>
         inBoard n m (currRow (slide g dir tile n m pos)) (currCol (slide g dir tile n m pos))"
proof (induction g dir tile n m pos rule: slide.induct)
  case (1 g dir tile n m pos)
  show ?case
  proof (cases "nextRow pos \<noteq> currRow pos \<or> nextCol pos \<noteq> currCol pos")
    case False
    then show ?thesis using "1.prems" by (simp add: slide.simps)
  next
    case True
    show ?thesis
    proof (cases "cellAt g (nextRow pos) (nextCol pos)")
      case (Some nt)
      then show ?thesis using True "1.prems" by (simp add: slide.simps)
    next
      case None
      let ?stop = "\<lparr>currRow = nextRow pos, currCol = nextCol pos,
                nextRow = clamp (nextRow pos + r dir) 0 (n - 1),
                nextCol = clamp (nextCol pos + c dir) 0 (m - 1)\<rparr>"
      have eq: "slide g dir tile n m pos = slide g dir tile n m ?stop"
        using True None by (subst slide.simps) simp
      have "inBoard n m (currRow ?stop) (currCol ?stop)" using "1.prems" by simp
      moreover have "inBoard n m (nextRow ?stop) (nextCol ?stop)"
        using "1.prems" clamp_in_range[of n] clamp_in_range[of m] by (simp add: inBoard_def)
      ultimately show ?thesis
        using "1.IH"[OF True None] eq by simp
    qed
  qed
qed

text \<open>
  Where the loop stops: at the cell it started from, at an empty cell, or on a tile of
  the same value that is not flagged.
\<close>

lemma slide_target:
  "(currRow (slide g dir tile n m pos) = currRow pos \<and> currCol (slide g dir tile n m pos) = currCol pos) \<or>
   (case cellAt g (currRow (slide g dir tile n m pos)) (currCol (slide g dir tile n m pos)) of
      None \<Rightarrow> True
    | Some nt \<Rightarrow> value nt = value tile \<and> \<not> canMerge nt)"
proof (induction g dir tile n m pos rule: slide.induct)
  case (1 g dir tile n m pos)
  show ?case
  proof (cases "nextRow pos \<noteq> currRow pos \<or> nextCol pos \<noteq> currCol pos")
    case False
    then show ?thesis by (subst (1 2) slide.simps) simp
  next
    case True
    show ?thesis
    proof (cases "cellAt g (nextRow pos) (nextCol pos)")
      case (Some nt)
      have eq: "slide g dir tile n m pos =
          (if value nt = value tile \<and> \<not> canMerge nt
           then pos\<lparr>currRow := nextRow pos, currCol := nextCol pos\<rparr> else pos)"
        using True Some by (subst slide.simps) simp
      show ?thesis
        unfolding eq using Some by simp
    next
      case None
      define nxt where "nxt = \<lparr>currRow = nextRow pos, currCol = nextCol pos,
                nextRow = clamp (nextRow pos + r dir) 0 (n - 1),
                nextCol = clamp (nextCol pos + c dir) 0 (m - 1)\<rparr>"
      have eq: "slide g dir tile n m pos = slide g dir tile n m nxt"
        using True None unfolding nxt_def by (subst slide.simps) simp
      have cur: "cellAt g (currRow nxt) (currCol nxt) = None"
        using None by (simp add: nxt_def)
      from "1.IH"[OF True None, folded nxt_def] cur
      show ?thesis
        unfolding eq by auto
    qed
  qed
qed

lemma clamp_ahead: "0 \<le> x \<Longrightarrow> x < n \<Longrightarrow> ahead d x (clamp (x + d) 0 (n - 1))"
  by (auto simp: ahead_def clamp_def)

lemma ahead_trans: "ahead d a b \<Longrightarrow> ahead d b e \<Longrightarrow> ahead d a e"
  by (auto simp: ahead_def)

lemma ahead_refl: "ahead d a a"
  by (simp add: ahead_def)

lemma slide_ahead:
  "inBoard n m (nextRow pos) (nextCol pos) \<Longrightarrow>
   ahead (r dir) row (currRow pos) \<Longrightarrow> ahead (r dir) row (nextRow pos) \<Longrightarrow>
   ahead (c dir) col (currCol pos) \<Longrightarrow> ahead (c dir) col (nextCol pos) \<Longrightarrow>
   ahead (r dir) row (currRow (slide g dir tile n m pos)) \<and>
   ahead (c dir) col (currCol (slide g dir tile n m pos))"
proof (induction g dir tile n m pos rule: slide.induct)
  case (1 g dir tile n m pos)
  show ?case
  proof (cases "nextRow pos \<noteq> currRow pos \<or> nextCol pos \<noteq> currCol pos")
    case False
    then show ?thesis using "1.prems" by (subst (1 2) slide.simps) simp
  next
    case True
    show ?thesis
    proof (cases "cellAt g (nextRow pos) (nextCol pos)")
      case (Some nt)
      have eq: "slide g dir tile n m pos =
          (if value nt = value tile \<and> \<not> canMerge nt
           then pos\<lparr>currRow := nextRow pos, currCol := nextCol pos\<rparr> else pos)"
        using True Some by (subst slide.simps) simp
      show ?thesis
        unfolding eq using "1.prems" by simp
    next
      case None
      define nxt where "nxt = \<lparr>currRow = nextRow pos, currCol = nextCol pos,
                nextRow = clamp (nextRow pos + r dir) 0 (n - 1),
                nextCol = clamp (nextCol pos + c dir) 0 (m - 1)\<rparr>"
      have eq: "slide g dir tile n m pos = slide g dir tile n m nxt"
        using True None unfolding nxt_def by (subst slide.simps) simp
      have nb: "0 \<le> nextRow pos" "nextRow pos < n" "0 \<le> nextCol pos" "nextCol pos < m"
        using "1.prems"(1) by (simp_all add: inBoard_def)
      have b: "inBoard n m (nextRow nxt) (nextCol nxt)"
        using nb clamp_in_range[of n] clamp_in_range[of m] by (simp add: nxt_def inBoard_def)
      have a1: "ahead (r dir) row (currRow nxt)" "ahead (c dir) col (currCol nxt)"
        using "1.prems" by (simp_all add: nxt_def)
      have a2: "ahead (r dir) row (nextRow nxt)"
        using ahead_trans[OF "1.prems"(3) clamp_ahead[OF nb(1,2), of "r dir"]] by (simp add: nxt_def)
      have a3: "ahead (c dir) col (nextCol nxt)"
        using ahead_trans[OF "1.prems"(5) clamp_ahead[OF nb(3,4), of "c dir"]] by (simp add: nxt_def)
      from "1.IH"[OF True None, folded nxt_def, OF b a1(1) a2 a1(2) a3]
      show ?thesis unfolding eq .
    qed
  qed
qed

lemma moveTile_outcome:
  assumes "rect g n m" and "inBoard (int n) (int m) row col"
    and "moveTile dir (int n) (int m) row col (g, ts, ms) = (g', ts', ms')"
  shows "(g' = g \<or>
          (\<exists>i j u. inBoard (int n) (int m) i j \<and> r u = i \<and> c u = j \<and> (i \<noteq> row \<or> j \<noteq> col) \<and>
              g' = setCell (setCell g i j (Some u)) row col None)) \<and>
         length ts' \<le> length ts + 1"
proof (cases "cellAt g row col")
  case None
  then show ?thesis using assms(3) by (simp add: moveTile_def)
next
  case (Some tile)
  define start where "start = \<lparr>currRow = row, currCol = col,
               nextRow = clamp (row + r dir) 0 (int n - 1),
               nextCol = clamp (col + c dir) 0 (int m - 1)\<rparr>"
  define stop where "stop = slide g dir tile (int n) (int m) start"
  define u where "u = tile\<lparr>r := currRow stop, c := currCol stop,
                               canMerge := (case cellAt g (currRow stop) (currCol stop) of
                                              None \<Rightarrow> False
                                            | Some t \<Rightarrow> value tile = value t),
                               isNew := False, isMerging := False\<rparr>"
  have "inBoard (int n) (int m) (nextRow start) (nextCol start)"
    using assms(2) clamp_in_range[of "int n"] clamp_in_range[of "int m"]
    by (simp add: inBoard_def start_def)
  then have rng: "inBoard (int n) (int m) (currRow stop) (currCol stop)"
    unfolding stop_def
    using slide_in_board[of "int n" "int m" start g dir tile] assms(2) by (simp add: start_def)
  show ?thesis
  proof (cases "currRow stop \<noteq> row \<or> currCol stop \<noteq> col")
    case True
    have "moveTile dir (int n) (int m) row col (g, ts, ms) =
        (setCell (setCell g (currRow stop) (currCol stop) (Some u)) row col None, ts @ [u], ms @ [index u])"
      using Some True unfolding moveTile_def u_def stop_def start_def by (simp add: Let_def)
    with assms(3) have g': "g' = setCell (setCell g (currRow stop) (currCol stop) (Some u)) row col None"
      and ts': "ts' = ts @ [u]" by simp_all
    have "r u = currRow stop" "c u = currCol stop" by (simp_all add: u_def)
    with rng True g' have "\<exists>i j u. inBoard (int n) (int m) i j \<and> r u = i \<and> c u = j \<and> (i \<noteq> row \<or> j \<noteq> col) \<and>
              g' = setCell (setCell g i j (Some u)) row col None"
      by blast
    with ts' show ?thesis by simp
  next
    case False
    then show ?thesis
      using assms(3) Some unfolding moveTile_def stop_def start_def
      by (auto simp: Let_def split: option.splits)
  qed
qed

lemma moveTile_keeps_shape:
  assumes "rect g n m \<and> placed g" and "inBoard (int n) (int m) row col"
  shows "rect (fst (moveTile dir (int n) (int m) row col (g, ts, ms))) n m \<and>
         placed (fst (moveTile dir (int n) (int m) row col (g, ts, ms)))"
proof -
  obtain g' ts' ms' where mt: "moveTile dir (int n) (int m) row col (g, ts, ms) = (g', ts', ms')"
    by (cases "moveTile dir (int n) (int m) row col (g, ts, ms)")
  from moveTile_outcome[OF _ assms(2) mt] assms(1)
  consider "g' = g"
    | i j u where "inBoard (int n) (int m) i j" "r u = i" "c u = j" "i \<noteq> row \<or> j \<noteq> col"
        "g' = setCell (setCell g i j (Some u)) row col None"
    by blast
  then have "rect g' n m \<and> placed g'"
  proof cases
    case 1
    then show ?thesis using assms(1) by simp
  next
    case 2
    have r1: "rect (setCell g i j (Some u)) n m"
      using assms(1) 2(1) by (auto simp: inBoard_def intro: rect_setCell)
    have r2: "rect g' n m"
      using r1 assms(2) 2(5) by (auto simp: inBoard_def intro: rect_setCell)
    have c1: "cellAt (setCell g i j (Some u)) i' j' = (if i' = i \<and> j' = j then Some u else cellAt g i' j')" for i' j'
      using assms(1) 2(1) cellAt_setCell[of g n m i j "Some u" i' j'] by (simp add: inBoard_def)
    have c2: "cellAt g' i' j' = (if i' = row \<and> j' = col then None else cellAt (setCell g i j (Some u)) i' j')" for i' j'
      using r1 assms(2) 2(5) cellAt_setCell[of "setCell g i j (Some u)" n m row col None i' j'] by (simp add: inBoard_def)
    have "placed g'"
      unfolding placed_cellAt
      using assms(1) 2(2,3) by (auto simp: c1 c2 placed_cellAt split: if_splits)
    with r2 show ?thesis by simp
  qed
  with mt show ?thesis by simp
qed

lemma moveTile_count:
  assumes "rect (fst st) n m" and "inBoard (int n) (int m) row col"
  shows "length (fst (snd (moveTile dir (int n) (int m) row col st))) \<le> length (fst (snd st)) + 1"
proof -
  obtain g ts ms where st: "st = (g, ts, ms)" by (cases st)
  obtain g' ts' ms' where mt: "moveTile dir (int n) (int m) row col (g, ts, ms) = (g', ts', ms')"
    by (cases "moveTile dir (int n) (int m) row col (g, ts, ms)")
  from moveTile_outcome[OF _ assms(2) mt] assms(1) st mt show ?thesis by simp
qed

lemma moveTile_shaped:
  "shaped n m st \<Longrightarrow> inBoard (int n) (int m) row col \<Longrightarrow> shaped n m (moveTile dir (int n) (int m) row col st)"
  using moveTile_keeps_shape[of "fst st" n m row col dir "fst (snd st)" "snd (snd st)"]
  by (simp add: shaped_def)

lemma moveTile_keeps_flagged:
  assumes "i \<noteq> row \<or> j \<noteq> col" and "cellAt g i j = Some nt" and "canMerge nt"
  shows "cellAt (fst (moveTile dir n m row col (g, ts, ms))) i j = Some nt"
proof (cases "cellAt g row col")
  case None
  then show ?thesis using assms(2) by (simp add: moveTile_def)
next
  case (Some tile)
  define start where "start = \<lparr>currRow = row, currCol = col,
               nextRow = clamp (row + r dir) 0 (n - 1),
               nextCol = clamp (col + c dir) 0 (m - 1)\<rparr>"
  define stop where "stop = slide g dir tile n m start"
  define u where "u = tile\<lparr>r := currRow stop, c := currCol stop,
                               canMerge := (case cellAt g (currRow stop) (currCol stop) of
                                              None \<Rightarrow> False
                                            | Some t \<Rightarrow> value tile = value t),
                               isNew := False, isMerging := False\<rparr>"
  show ?thesis
  proof (cases "currRow stop \<noteq> row \<or> currCol stop \<noteq> col")
    case False
    then have "fst (moveTile dir n m row col (g, ts, ms)) = g"
      using Some unfolding moveTile_def stop_def start_def
      by (auto simp: Let_def split: option.splits)
    then show ?thesis using assms(2) by simp
  next
    case True
    have mt: "fst (moveTile dir n m row col (g, ts, ms)) =
        setCell (setCell g (currRow stop) (currCol stop) (Some u)) row col None"
      using Some True unfolding moveTile_def u_def stop_def start_def by (simp add: Let_def)
    have st: "currRow start = row" "currCol start = col"
      by (simp_all add: start_def)
    have tgt: "case cellAt g (currRow stop) (currCol stop) of
                 None \<Rightarrow> True | Some t \<Rightarrow> value t = value tile \<and> \<not> canMerge t"
      using slide_target[of g dir tile n m start, folded stop_def, unfolded st] True
      by blast
    have "i \<noteq> currRow stop \<or> j \<noteq> currCol stop"
      using tgt assms(2,3) by (auto split: option.splits)
    then show ?thesis
      unfolding mt using assms(1,2) by (simp add: cellAt_setCell_other)
  qed
qed

section \<open>Move engine: the whole traversal\<close>

lemma traversal_rows_in_range:
  "createTraversalMap n m dir = (rows, cols) \<Longrightarrow> row \<in> set rows \<Longrightarrow> col \<in> set cols \<Longrightarrow>
     inBoard (int n) (int m) row col"
  by (auto simp: createTraversalMap_def createIndexArray_def Let_def inBoard_def split: if_splits)

lemma traversal_length:
  "createTraversalMap n m dir = (rows, cols) \<Longrightarrow> length rows = n \<and> length cols = m"
  by (auto simp: createTraversalMap_def createIndexArray_def Let_def split: if_splits)

lemma traversal_shaped:
  assumes "shaped n m st" and "\<forall>row \<in> set rows. \<forall>col \<in> set cols. inBoard (int n) (int m) row col"
  shows "shaped n m (fold (\<lambda>row. fold (moveTile dir (int n) (int m) row) cols) rows st)"
proof (rule fold_invariant[where P = "shaped n m"])
  show "shaped n m st" by (rule assms(1))
next
  fix row s assume row: "row \<in> set rows" and s: "shaped n m s"
  show "shaped n m (fold (moveTile dir (int n) (int m) row) cols s)"
  proof (rule fold_invariant[where P = "shaped n m"])
    show "shaped n m s" by (rule s)
  next
    fix col s' assume "col \<in> set cols" "shaped n m s'"
    then show "shaped n m (moveTile dir (int n) (int m) row col s')"
      using assms(2) row by (auto intro: moveTile_shaped)
  qed
qed

lemma traversal_count:
  assumes "shaped n m st" and "\<forall>row \<in> set rows. \<forall>col \<in> set cols. inBoard (int n) (int m) row col"
  shows "length (fst (snd (fold (\<lambda>row. fold (moveTile dir (int n) (int m) row) cols) rows st)))
           \<le> length (fst (snd st)) + length cols * length rows"
proof -
  have inner: "shaped n m (fold (moveTile dir (int n) (int m) row) cols s) \<and>
      length (fst (snd (fold (moveTile dir (int n) (int m) row) cols s))) \<le> length (fst (snd s)) + 1 * length cols"
    if "row \<in> set rows" "shaped n m s" for row s
  proof (rule fold_growth_inv[where P = "shaped n m" and cnt = "\<lambda>s. length (fst (snd s))"])
    show "shaped n m s" by (rule that)
  next
    fix col s' assume "col \<in> set cols" "shaped n m s'"
    then show "shaped n m (moveTile dir (int n) (int m) row col s') \<and>
        length (fst (snd (moveTile dir (int n) (int m) row col s'))) \<le> length (fst (snd s')) + 1"
      using assms(2) that(1) moveTile_shaped[of n m s' row col dir] moveTile_count[of s' n m row col dir]
      by (simp add: shaped_def)
  qed
  have "shaped n m (fold (\<lambda>row. fold (moveTile dir (int n) (int m) row) cols) rows st) \<and>
     length (fst (snd (fold (\<lambda>row. fold (moveTile dir (int n) (int m) row) cols) rows st)))
           \<le> length (fst (snd st)) + length cols * length rows"
  proof (rule fold_growth_inv[where P = "shaped n m" and cnt = "\<lambda>s. length (fst (snd s))"])
    show "shaped n m st" by (rule assms(1))
  next
    fix row s assume "row \<in> set rows" "shaped n m s"
    then show "shaped n m (fold (moveTile dir (int n) (int m) row) cols s) \<and>
      length (fst (snd (fold (moveTile dir (int n) (int m) row) cols s))) \<le> length (fst (snd s)) + length cols"
      using inner[of row s] by simp
  qed
  then show ?thesis by simp
qed

lemma moveInDirection_shaped:
  assumes "wellFormed grid"
  shows "\<exists>ts g' ms. moveInDirection grid dir = Inr (ts, g', ms) \<and>
           rect g' (length grid) (length (hd grid)) \<and> placed g' \<and>
           length ts \<le> length grid * length (hd grid)"
proof -
  obtain row0 rest where g: "grid = row0 # rest"
    using assms by (cases grid) (auto simp: wellFormed_def)
  define n where "n = length grid"
  define m where "m = length row0"
  obtain rows cols where tr: "createTraversalMap n m dir = (rows, cols)"
    by (cases "createTraversalMap n m dir")
  define final where "final = fold (\<lambda>row. fold (moveTile dir (int n) (int m) row) cols) rows (grid, [], [])"
  have sh: "shaped n m (grid, [], [])"
    using assms by (simp add: shaped_def wellFormed_def n_def m_def g)
  have rng: "\<forall>row \<in> set rows. \<forall>col \<in> set cols. inBoard (int n) (int m) row col"
    using traversal_rows_in_range[OF tr] by blast
  have 1: "shaped n m final"
    unfolding final_def by (rule traversal_shaped[OF sh rng])
  have 2: "length (fst (snd final)) \<le> n * m"
    using traversal_count[OF sh rng, of dir] traversal_length[OF tr]
    by (simp add: final_def mult.commute)
  obtain g' ts ms where f: "final = (g', ts, ms)" by (cases final)
  have "moveInDirection grid dir = Inr (ts, g', ms)"
    using tr f unfolding moveInDirection_def final_def n_def m_def g by (simp add: Let_def)
  with 1 2 f show ?thesis
    by (auto simp: shaped_def n_def m_def g)
qed

text \<open>
  C3: for every well-formed grid and every direction (the four cardinal ones among
  them), moveInDirection returns; the grid it returns is well formed and has the same
  shape; it reports at most rows*cols tiles; the returned grid holds at most rows*cols
  tiles, and no two of them have the same position.
\<close>

theorem move_keeps_cells_apart:
  "wellFormed grid \<Longrightarrow>
     \<exists>ts g' ms. moveInDirection grid dir = Inr (ts, g', ms) \<and>
        wellFormed g' \<and> length g' = length grid \<and> length (hd g') = length (hd grid) \<and>
        length ts \<le> length grid * length (hd grid) \<and>
        length (gridTiles g') \<le> length grid * length (hd grid) \<and>
        distinct (map (\<lambda>t. (r t, c t)) (gridTiles g'))"
proof -
  assume wf: "wellFormed grid"
  from moveInDirection_shaped[OF wf, of dir] obtain ts g' ms where
    mv: "moveInDirection grid dir = Inr (ts, g', ms)" and
    re: "rect g' (length grid) (length (hd grid))" and pl: "placed g'" and
    len: "length ts \<le> length grid * length (hd grid)"
    by blast
  have ne: "g' \<noteq> []" and lg: "length g' = length grid"
    using re wf by (auto simp: rect_def wellFormed_def)
  have "0 < length grid"
    using wf by (simp add: wellFormed_def)
  from rect_row[OF re this] have lh: "length (hd g') = length (hd grid)"
    using ne by (simp add: hd_conv_nth)
  have wf': "wellFormed g'"
    using ne re pl lg lh by (simp add: wellFormed_def)
  have cnt: "length (gridTiles g') \<le> length grid * length (hd grid)"
    using length_gridTiles[OF re] by simp
  show ?thesis
    using mv wf' lg lh len cnt placed_positions[OF pl] by blast
qed

theorem move_keeps_cells_apart_witness:
  "wellFormed rowGrid \<and>
   (\<exists>ts g' ms. moveInDirection rowGrid DIRECTION_Left = Inr (ts, g', ms) \<and>
        wellFormed g' \<and> length g' = length rowGrid \<and>
        length (hd g') = length (hd rowGrid) \<and>
        length ts \<le> length rowGrid * length (hd rowGrid) \<and>
        length (gridTiles g') \<le> length rowGrid * length (hd rowGrid) \<and>
        distinct (map (\<lambda>t. (r t, c t)) (gridTiles g')))"
proof -
  have wf: "wellFormed rowGrid"
    by (simp add: wellFormed_def rect_def placed_def rowGrid_def tileAt_def
          atLeast0_lessThan_Suc)
  from wf move_keeps_cells_apart[OF wf, of DIRECTION_Left] show ?thesis
    by (rule conjI)
qed

section \<open>Move engine: a move that moves nothing\<close>

lemma pressedD:
  assumes "pressed g dir" and "i < length g" and "j < length (hd g)"
    and "cellAt g (int i) (int j) = Some tile"
  shows "(clamp (int i + r dir) 0 (int (length g) - 1) = int i \<and>
          clamp (int j + c dir) 0 (int (length (hd g)) - 1) = int j) \<or>
         (\<exists>nextTile. cellAt g (clamp (int i + r dir) 0 (int (length g) - 1))
                        (clamp (int j + c dir) 0 (int (length (hd g)) - 1)) = Some nextTile \<and>
            (value nextTile \<noteq> value tile \<or> canMerge nextTile))"
proof -
  have "\<forall>i \<in> {0..<length g}. \<forall>j \<in> {0..<length (hd g)}.
        case cellAt g (int i) (int j) of
          None \<Rightarrow> True
        | Some tile \<Rightarrow>
            (let nextRow = clamp (int i + r dir) 0 (int (length g) - 1);
                 nextCol = clamp (int j + c dir) 0 (int (length (hd g)) - 1)
             in (nextRow = int i \<and> nextCol = int j) \<or>
                (case cellAt g nextRow nextCol of
                   None \<Rightarrow> False
                 | Some nextTile \<Rightarrow> value nextTile \<noteq> value tile \<or> canMerge nextTile))"
    using assms(1) unfolding pressed_def .
  then have "case cellAt g (int i) (int j) of
          None \<Rightarrow> True
        | Some tile \<Rightarrow>
            (let nextRow = clamp (int i + r dir) 0 (int (length g) - 1);
                 nextCol = clamp (int j + c dir) 0 (int (length (hd g)) - 1)
             in (nextRow = int i \<and> nextCol = int j) \<or>
                (case cellAt g nextRow nextCol of
                   None \<Rightarrow> False
                 | Some nextTile \<Rightarrow> value nextTile \<noteq> value tile \<or> canMerge nextTile))"
    using assms(2,3) by simp
  then show ?thesis
    using assms(4) by (simp add: Let_def split: option.splits)
qed

lemma moveTile_pressed:
  assumes "pressed g dir" and "g \<noteq> []" and "inBoard (int (length g)) (int (length (hd g))) row col"
  shows "\<exists>ts'. moveTile dir (int (length g)) (int (length (hd g))) row col (g, ts, ms) = (g, ts', ms)"
proof (cases "cellAt g row col")
  case None
  then show ?thesis by (simp add: moveTile_def)
next
  case (Some tile)
  define start where "start = \<lparr>currRow = row, currCol = col,
               nextRow = clamp (row + r dir) 0 (int (length g) - 1),
               nextCol = clamp (col + c dir) 0 (int (length (hd g)) - 1)\<rparr>"
  have rc: "row = int (nat row)" "col = int (nat col)" "nat row < length g" "nat col < length (hd g)"
    using assms(3) by (auto simp: inBoard_def)
  have "cellAt g (int (nat row)) (int (nat col)) = Some tile"
    using Some rc(1,2) by simp
  from pressedD[OF assms(1) rc(3,4) this] rc(1,2)
  have pr: "(nextRow start = row \<and> nextCol start = col) \<or>
         (\<exists>nextTile. cellAt g (nextRow start) (nextCol start) = Some nextTile \<and>
            (value nextTile \<noteq> value tile \<or> canMerge nextTile))"
    by (simp add: start_def)
  have stay: "slide g dir tile (int (length g)) (int (length (hd g))) start = start"
  proof -
    have cur: "currRow start = row" "currCol start = col"
      by (simp_all add: start_def)
    from pr show ?thesis
    proof
      assume "nextRow start = row \<and> nextCol start = col"
      then show ?thesis using cur by (subst slide.simps) simp
    next
      assume "\<exists>nextTile. cellAt g (nextRow start) (nextCol start) = Some nextTile \<and>
            (value nextTile \<noteq> value tile \<or> canMerge nextTile)"
      then obtain nextTile where "cellAt g (nextRow start) (nextCol start) = Some nextTile"
        "value nextTile \<noteq> value tile \<or> canMerge nextTile" by blast
      then show ?thesis by (subst slide.simps) auto
    qed
  qed
  show ?thesis
    using Some stay unfolding moveTile_def start_def by (simp add: Let_def)
qed

lemma moveInDirection_pressed:
  assumes "grid \<noteq> []" and "pressed grid dir"
  shows "\<exists>ts. moveInDirection grid dir = Inr (ts, grid, [])"
proof -
  obtain row0 rest where g: "grid = row0 # rest"
    using assms(1) by (cases grid) auto
  define n where "n = length grid"
  define m where "m = length (hd grid)"
  obtain rows cols where tr: "createTraversalMap n m dir = (rows, cols)"
    by (cases "createTraversalMap n m dir")
  define final where "final = fold (\<lambda>row. fold (moveTile dir (int n) (int m) row) cols) rows (grid, [], [])"
  have step: "untouched grid (moveTile dir (int n) (int m) row col s)"
    if a: "row \<in> set rows" and b: "col \<in> set cols" and u: "untouched grid s" for row col s
  proof -
    obtain ts where s: "s = (grid, ts, [])"
      using u by (cases s) (auto simp: untouched_def)
    have "inBoard (int n) (int m) row col"
      using traversal_rows_in_range[OF tr a b] .
    then have "inBoard (int (length grid)) (int (length (hd grid))) row col"
      by (simp add: n_def m_def)
    from moveTile_pressed[OF assms(2,1) this, of ts "[]"] obtain ts' where
      "moveTile dir (int n) (int m) row col (grid, ts, []) = (grid, ts', [])"
      unfolding n_def m_def by blast
    then show ?thesis by (simp add: s untouched_def)
  qed
  have "untouched grid final"
    unfolding final_def
  proof (rule fold_invariant[where P = "untouched grid"])
    show "untouched grid (grid, [], [])" by (simp add: untouched_def)
  next
    fix row s assume row: "row \<in> set rows" and s: "untouched grid s"
    show "untouched grid (fold (moveTile dir (int n) (int m) row) cols s)"
    proof (rule fold_invariant[where P = "untouched grid"])
      show "untouched grid s" by (rule s)
    next
      fix col s' assume "col \<in> set cols" "untouched grid s'"
      then show "untouched grid (moveTile dir (int n) (int m) row col s')"
        by (rule step[OF row])
    qed
  qed
  then obtain ts where f: "final = (grid, ts, [])"
    by (cases final) (auto simp: untouched_def)
  have tr': "createTraversalMap (length (row0 # rest)) (length row0) dir = (rows, cols)"
    using tr by (simp add: n_def m_def g)
  have f': "fold (\<lambda>row. fold (moveTile dir (int (length (row0 # rest))) (int (length row0)) row) cols)
               rows (row0 # rest, [], []) = (row0 # rest, ts, [])"
    using f by (simp add: final_def n_def m_def g)
  have "moveInDirection (row0 # rest) dir = Inr (ts, row0 # rest, [])"
    unfolding moveInDirection_def using tr' f' by (simp add: Let_def)
  then have "moveInDirection grid dir = Inr (ts, grid, [])"
    by (simp add: g)
  then show ?thesis by blast
qed

text \<open>
  C9: on every grid (with a row) in which every tile is pressed against the edge of the
  direction and none can merge, moveInDirection returns the grid as it was and an empty
  move list, and onMove returns the session as it was: the moving flag is not set, so
  no settle phase follows.
\<close>

theorem no_move_when_pressed:
  "gridRef s \<noteq> [] \<Longrightarrow> pressed (gridRef s) dir \<Longrightarrow>
     (\<exists>ts. moveInDirection (gridRef s) dir = Inr (ts, gridRef s, [])) \<and> onMove dir s = Inr s"
proof -
  assume a: "gridRef s \<noteq> []" "pressed (gridRef s) dir"
  from moveInDirection_pressed[OF a] obtain ts where
    mv: "moveInDirection (gridRef s) dir = Inr (ts, gridRef s, [])" by blast
  have "onMove dir s = Inr s"
    using mv by (cases s) (auto simp: onMove_def)
  with mv show ?thesis by blast
qed

theorem no_move_when_pressed_witness:
  "gridRef stuckSession \<noteq> [] \<and> pressed (gridRef stuckSession) DIRECTION_Left \<and>
   (\<exists>ts. moveInDirection (gridRef stuckSession) DIRECTION_Left =
            Inr (ts, gridRef stuckSession, [])) \<and>
   onMove DIRECTION_Left stuckSession = Inr stuckSession"
proof -
  have ne: "gridRef stuckSession \<noteq> []"
    by (simp add: stuckSession_def stuckGrid_def)
  have pr: "pressed (gridRef stuckSession) DIRECTION_Left"
    by (simp add: stuckSession_def pressed_def stuckGrid_def DIRECTION_Left_def tileAt_def
          cellAt_def clamp_def Let_def atLeast0_lessThan_Suc)
  from no_move_when_pressed[OF ne pr] ne pr show ?thesis
    by simp
qed

section \<open>Move engine: one merge per tile and move\<close>

lemma move_row_left:
  "moveInDirection rowGrid DIRECTION_Left = Inr
     ([tileAt 0 0 0 2, (tileAt 0 0 1 2)\<lparr>canMerge := True\<rparr>, tileAt 0 1 2 2,
       (tileAt 0 1 3 2)\<lparr>canMerge := True\<rparr>], flaggedGrid, [1, 2, 3])"
  by (simp add: moveInDirection_def rowGrid_def flaggedGrid_def tileAt_def createTraversalMap_def
        createIndexArray_def DIRECTION_Left_def moveTile_def slide.simps cellAt_def setCell_def
        setAt_def clamp_def Let_def)

lemma move_row_right:
  "moveInDirection rowGrid DIRECTION_Right = Inr
     ([tileAt 0 3 3 2, (tileAt 0 3 2 2)\<lparr>canMerge := True\<rparr>, tileAt 0 2 1 2,
       (tileAt 0 2 0 2)\<lparr>canMerge := True\<rparr>], flaggedGridRight, [2, 1, 0])"
  by (simp add: moveInDirection_def rowGrid_def flaggedGridRight_def tileAt_def createTraversalMap_def
        createIndexArray_def DIRECTION_Right_def moveTile_def slide.simps cellAt_def setCell_def
        setAt_def clamp_def Let_def)

lemma settled_values:
  assumes "grid \<noteq> []"
  shows "\<exists>g' ts' w'. mergeAndCreateNewTiles grid w = Inr ((g', ts', mergedScore grid), w') \<and>
           filter (\<lambda>t. \<not> isNew t) ts' = map mergeTile (gridTiles grid)"
proof -
  from mergeAndCreateNewTiles_eq[OF assms, of w] obtain g' w' where
    eq: "mergeAndCreateNewTiles grid w =
     Inr ((g', map mergeTile (gridTiles grid) @
              fst (createRandomTiles
                    (getEmptyCellsLocation (map (map (map_option mergeTile)) grid))
                    (if length grid * length (hd grid) \<ge> 24 then 2 else 1) w),
           mergedScore grid), w')"
    by blast
  have 1: "filter (\<lambda>t. \<not> isNew t) (map mergeTile ts) = map mergeTile ts" for ts
    by (induction ts) (simp_all add: isNew_mergeTile)
  have 2: "filter (\<lambda>t. \<not> isNew t) (fst (createRandomTiles cells k w)) = []" for cells k
    using isNew_createRandomTiles[of _ cells k w] by (simp add: filter_empty_conv)
  show ?thesis
    using eq 1 2 by simp
qed

lemma floor_two: "0 \<le> (u::real) \<Longrightarrow> u < 1 \<Longrightarrow> nat \<lfloor>u * 2\<rfloor> = 0 \<or> nat \<lfloor>u * 2\<rfloor> = 1"
proof -
  assume "0 \<le> u" "u < 1"
  then have "0 \<le> \<lfloor>u * 2\<rfloor>" "\<lfloor>u * 2\<rfloor> < 2" by (simp_all add: floor_less_iff)
  then show ?thesis by linarith
qed

lemma settle_row_left:
  assumes "validWorld w"
  shows "\<exists>g' ts' sc w' cell. mergeAndCreateNewTiles flaggedGrid w = Inr ((g', ts', sc), w') \<and>
     (map (map (map_option value)) g' = [[Some 4, Some 4, cell, None]] \<or>
      map (map (map_option value)) g' = [[Some 4, Some 4, None, cell]]) \<and>
     (cell = Some 2 \<or> cell = Some 4)"
proof -
  have u: "0 \<le> randoms w (randomCalls w)" "randoms w (randomCalls w) < 1"
    using assms by (simp_all add: validWorld_def)
  from floor_two[OF u] show ?thesis
  proof
    assume j: "nat \<lfloor>randoms w (randomCalls w) * 2\<rfloor> = 0"
    show ?thesis
      by (simp add: mergeAndCreateNewTiles_def flaggedGrid_def tileAt_def mergeTile_def
          getEmptyCellsLocation_def createRandomTiles_def shuffle_def mathRandom_def j
          createNewTile_def nextTileIndex_def getId_def dateNow_def placeTiles_def
          setCell_def setAt_def Let_def)
  next
    assume j: "nat \<lfloor>randoms w (randomCalls w) * 2\<rfloor> = 1"
    show ?thesis
      by (simp add: mergeAndCreateNewTiles_def flaggedGrid_def tileAt_def mergeTile_def
          getEmptyCellsLocation_def createRandomTiles_def shuffle_def mathRandom_def j
          createNewTile_def nextTileIndex_def getId_def dateNow_def placeTiles_def
          setCell_def setAt_def Let_def)
  qed
qed

text \<open>
  The traversal visits the cells that lie ahead of a cell before that cell, so a tile
  never lands on a cell that is still to be visited.
\<close>

lemma before_asym: "before dir a b \<Longrightarrow> \<not> before dir b a"
  by (auto simp: before_def split: if_splits)

lemma ahead_before:
  "ahead (r dir) row i \<Longrightarrow> ahead (c dir) col j \<Longrightarrow> i \<noteq> row \<or> j \<noteq> col \<Longrightarrow>
     before dir (i, j) (row, col)"
  by (auto simp: ahead_def before_def split: if_splits)

lemma sorted_wrt_product:
  assumes "sorted_wrt R1 xs" and "sorted_wrt R2 ys"
  shows "sorted_wrt (\<lambda>a b. R1 (fst a) (fst b) \<or> (fst a = fst b \<and> R2 (snd a) (snd b)))
           (List.product xs ys)"
  using assms(1)
proof (induction xs)
  case Nil
  then show ?case by simp
next
  case (Cons x xs)
  have 1: "sorted_wrt (\<lambda>a b. R1 (fst a) (fst b) \<or> (fst a = fst b \<and> R2 (snd a) (snd b)))
             (map (Pair x) ys)"
    using assms(2) by (auto simp: sorted_wrt_map intro: sorted_wrt_mono_rel[of ys R2])
  have 2: "sorted_wrt (\<lambda>a b. R1 (fst a) (fst b) \<or> (fst a = fst b \<and> R2 (snd a) (snd b)))
             (List.product xs ys)"
    using Cons by simp
  have 3: "\<forall>a \<in> set (map (Pair x) ys). \<forall>b \<in> set (List.product xs ys). R1 (fst a) (fst b)"
    using Cons.prems by auto
  show ?case
    using 1 2 3 by (auto simp: sorted_wrt_append)
qed

lemma traversal_sorted:
  assumes "createTraversalMap n m dir = (rows, cols)"
  shows "sorted_wrt (before dir) (List.product rows cols)"
proof -
  have up: "sorted_wrt (<) (map int [0..<k])" for k
    by (simp add: sorted_wrt_map)
  have down: "sorted_wrt (\<lambda>a b. b < a) (rev (map int [0..<k]))" for k
    using up[of k] by (simp add: sorted_wrt_rev)
  have rs: "sorted_wrt (\<lambda>a b. if 0 < r dir then b < a else a < b) rows"
    using assms up[of n] down[of n]
    by (auto simp: createTraversalMap_def createIndexArray_def Let_def split: if_splits)
  have cs: "sorted_wrt (\<lambda>a b. if 0 < c dir then b < a else a < b) cols"
    using assms up[of m] down[of m]
    by (auto simp: createTraversalMap_def createIndexArray_def Let_def split: if_splits)
  from sorted_wrt_product[OF rs cs] show ?thesis
    by (simp add: before_def[abs_def])
qed

lemma earlier_in_prefix:
  assumes "sorted_wrt (before dir) (pre @ x # post)" and "y \<in> set (pre @ x # post)"
    and "before dir y x"
  shows "y \<in> set pre"
proof -
  have "\<forall>z \<in> set post. before dir x z"
    using assms(1) by (simp add: sorted_wrt_append)
  then have "y \<notin> set post"
    using assms(3) before_asym by blast
  moreover have "y \<noteq> x"
    using assms(3) before_asym by blast
  ultimately show ?thesis
    using assms(2) by auto
qed

lemma index_array_set: "i \<in> set (createIndexArray n) \<longleftrightarrow> 0 \<le> i \<and> i < int n"
proof
  assume "i \<in> set (createIndexArray n)"
  then show "0 \<le> i \<and> i < int n" by (auto simp: createIndexArray_def)
next
  assume "0 \<le> i \<and> i < int n"
  then have "nat i \<in> {0..<n}" "i = int (nat i)" by auto
  then show "i \<in> set (createIndexArray n)"
    unfolding createIndexArray_def by (metis image_eqI set_map set_upt)
qed

lemma traversal_cells:
  assumes "createTraversalMap n m dir = (rows, cols)"
  shows "(i, j) \<in> set (List.product rows cols) \<longleftrightarrow> inBoard (int n) (int m) i j"
proof -
  have "set rows = set (createIndexArray n)" "set cols = set (createIndexArray m)"
    using assms by (auto simp: createTraversalMap_def Let_def split: if_splits)
  then show ?thesis
    by (auto simp: index_array_set inBoard_def)
qed

text \<open>
  One step, and then the whole move, conserves the worth of the tiles: a tile lands on
  an empty cell, or on an unflagged tile of its own value and is then flagged, worth
  the two together.
\<close>

lemma moveTile_conserves:
  assumes re: "rect g n m" and ib: "inBoard (int n) (int m) row col"
    and fl: "flagsWithin V g" and nv: "(row, col) \<notin> V"
    and land: "\<And>i j. inBoard (int n) (int m) i j \<Longrightarrow> ahead (r dir) row i \<Longrightarrow>
                 ahead (c dir) col j \<Longrightarrow> i \<noteq> row \<or> j \<noteq> col \<Longrightarrow> (i, j) \<in> V"
  shows "sum_list (map weight (gridTiles (fst (moveTile dir (int n) (int m) row col (g, ts, ms))))) =
           sum_list (map weight (gridTiles g)) \<and>
         flagsWithin (insert (row, col) V) (fst (moveTile dir (int n) (int m) row col (g, ts, ms)))"
proof (cases "cellAt g row col")
  case None
  then have "fst (moveTile dir (int n) (int m) row col (g, ts, ms)) = g"
    by (simp add: moveTile_def)
  then show ?thesis using fl by (auto simp: flagsWithin_def)
next
  case (Some tile)
  have unfl: "\<not> canMerge tile"
    using fl nv Some by (auto simp: flagsWithin_def)
  define start where "start = \<lparr>currRow = row, currCol = col,
               nextRow = clamp (row + r dir) 0 (int n - 1),
               nextCol = clamp (col + c dir) 0 (int m - 1)\<rparr>"
  define stop where "stop = slide g dir tile (int n) (int m) start"
  define u where "u = tile\<lparr>r := currRow stop, c := currCol stop,
                               canMerge := (case cellAt g (currRow stop) (currCol stop) of
                                              None \<Rightarrow> False
                                            | Some t \<Rightarrow> value tile = value t),
                               isNew := False, isMerging := False\<rparr>"
  have st: "currRow start = row" "currCol start = col"
    by (simp_all add: start_def)
  have rc: "0 \<le> row" "row < int n" "0 \<le> col" "col < int m"
    using ib by (simp_all add: inBoard_def)
  have nb: "inBoard (int n) (int m) (nextRow start) (nextCol start)"
    using rc clamp_in_range[of "int n"] clamp_in_range[of "int m"]
    by (simp add: inBoard_def start_def)
  have sb: "inBoard (int n) (int m) (currRow stop) (currCol stop)"
    unfolding stop_def using slide_in_board[of "int n" "int m" start g dir tile] ib nb
    by (simp add: st)
  have sa: "ahead (r dir) row (currRow stop)" "ahead (c dir) col (currCol stop)"
    unfolding stop_def
    using slide_ahead[of "int n" "int m" start dir row col g tile, OF nb]
          clamp_ahead[OF rc(1,2), of "r dir"] clamp_ahead[OF rc(3,4), of "c dir"]
    by (simp_all add: st ahead_refl) (simp_all add: start_def)
  show ?thesis
  proof (cases "currRow stop \<noteq> row \<or> currCol stop \<noteq> col")
    case False
    then have "fst (moveTile dir (int n) (int m) row col (g, ts, ms)) = g"
      using Some unfolding moveTile_def stop_def start_def
      by (auto simp: Let_def split: option.splits)
    then show ?thesis using fl by (auto simp: flagsWithin_def)
  next
    case True
    define g1 where "g1 = setCell g (currRow stop) (currCol stop) (Some u)"
    have mt: "fst (moveTile dir (int n) (int m) row col (g, ts, ms)) = setCell g1 row col None"
      using Some True unfolding moveTile_def u_def stop_def start_def g1_def by (simp add: Let_def)
    have inV: "(currRow stop, currCol stop) \<in> V"
      using land[OF sb sa True] .
    have tgt: "case cellAt g (currRow stop) (currCol stop) of
                 None \<Rightarrow> True | Some t \<Rightarrow> value t = value tile \<and> \<not> canMerge t"
      using slide_target[of g dir tile "int n" "int m" start, folded stop_def, unfolded st] True
      by blast
    have r1: "rect g1 n m"
      unfolding g1_def using re sb by (auto simp: inBoard_def intro: rect_setCell)
    have c1: "cellAt g1 i j = (if i = currRow stop \<and> j = currCol stop then Some u else cellAt g i j)" for i j
      unfolding g1_def using cellAt_setCell[OF re, of "currRow stop" "currCol stop" "Some u" i j] sb
      by (simp add: inBoard_def)
    have c2: "cellAt (setCell g1 row col None) i j = (if i = row \<and> j = col then None else cellAt g1 i j)" for i j
      using cellAt_setCell[OF r1, of row col None i j] rc by simp
    have s1: "sum_list (map weight (gridTiles g1)) =
        sum_list (map weight (gridTiles g)) - sum_list (map weight (cellTiles (cellAt g (currRow stop) (currCol stop))))
          + weight u"
      unfolding g1_def using sum_setCell[OF re sb, of weight "Some u"] by simp
    have "cellAt g1 row col = Some tile"
      using c1[of row col] True Some by auto
    then have s2: "sum_list (map weight (gridTiles (setCell g1 row col None))) =
        sum_list (map weight (gridTiles g1)) - weight tile"
      using sum_setCell[OF r1 ib, of weight None] by simp
    have wt: "weight tile = value tile"
      using unfl by (simp add: weight_def)
    have bal: "weight u - sum_list (map weight (cellTiles (cellAt g (currRow stop) (currCol stop)))) = value tile"
    proof (cases "cellAt g (currRow stop) (currCol stop)")
      case None
      then show ?thesis by (simp add: u_def weight_def)
    next
      case (Some nt)
      then have "value nt = value tile" "\<not> canMerge nt" using tgt by simp_all
      then show ?thesis using Some by (simp add: u_def weight_def)
    qed
    have sum: "sum_list (map weight (gridTiles (setCell g1 row col None))) = sum_list (map weight (gridTiles g))"
      using s1 s2 wt bal by simp
    have flags: "flagsWithin (insert (row, col) V) (setCell g1 row col None)"
      unfolding flagsWithin_def
    proof (intro allI impI)
      fix i j t assume a: "cellAt (setCell g1 row col None) i j = Some t \<and> canMerge t"
      then have ne: "\<not> (i = row \<and> j = col)" and a1: "cellAt g1 i j = Some t"
        by (auto simp: c2 split: if_splits)
      show "(i, j) \<in> insert (row, col) V"
      proof (cases "i = currRow stop \<and> j = currCol stop")
        case True
        then show ?thesis using inV by simp
      next
        case False
        then have "cellAt g i j = Some t" using a1 unfolding c1 by (simp split: if_splits)
        then show ?thesis using fl a by (auto simp: flagsWithin_def)
      qed
    qed
    show ?thesis
      unfolding mt using sum flags by simp
  qed
qed

lemma moveInDirection_conserves:
  assumes wf: "wellFormed grid" and settled: "\<forall>t \<in> set (gridTiles grid). \<not> canMerge t"
  shows "\<exists>ts g' ms. moveInDirection grid dir = Inr (ts, g', ms) \<and>
           sum_list (map weight (gridTiles g')) = sum_list (map value (gridTiles grid))"
proof -
  obtain row0 rest where g: "grid = row0 # rest"
    using wf by (cases grid) (auto simp: wellFormed_def)
  define n where "n = length grid"
  define m where "m = length row0"
  obtain rows cols where tr: "createTraversalMap n m dir = (rows, cols)"
    by (cases "createTraversalMap n m dir")
  define cells where "cells = List.product rows cols"
  define step where "step = (\<lambda>(row, col). moveTile dir (int n) (int m) row col)"
  define worth where "worth = sum_list (map value (gridTiles grid))"
  define final where "final = fold step cells (grid, [], [])"
  have srt: "sorted_wrt (before dir) cells"
    unfolding cells_def by (rule traversal_sorted[OF tr])
  have w0: "sum_list (map weight (gridTiles grid)) = worth"
    unfolding worth_def using settled by (intro arg_cong[of _ _ sum_list] map_cong) (auto simp: weight_def)
  have init: "conserving n m worth [] (grid, [], [])"
    using wf w0 settled cellAt_gridTiles[of grid]
    by (auto simp: conserving_def shaped_def wellFormed_def n_def m_def g flagsWithin_def)
  have "conserving n m worth cells final"
    unfolding final_def
  proof (rule fold_prefix_invariant[where P = "conserving n m worth"])
    show "conserving n m worth [] (grid, [], [])" by (rule init)
  next
    fix pre x post s
    assume split: "cells = pre @ x # post" and inv: "conserving n m worth pre s"
    obtain row col where x: "x = (row, col)" by (cases x)
    obtain gs tss mss where s: "s = (gs, tss, mss)" by (cases s)
    have mem: "(row, col) \<in> set cells" using split x by simp
    then have ib: "inBoard (int n) (int m) row col"
      unfolding cells_def using traversal_cells[OF tr, of row col] by blast
    have srt': "sorted_wrt (before dir) (pre @ (row, col) # post)"
      using srt split x by simp
    have nv: "(row, col) \<notin> set pre"
    proof
      assume "(row, col) \<in> set pre"
      then have "before dir (row, col) (row, col)"
        using srt' by (simp add: sorted_wrt_append)
      then show False using before_asym by blast
    qed
    have land: "(i, j) \<in> set pre"
      if "inBoard (int n) (int m) i j" "ahead (r dir) row i" "ahead (c dir) col j" "i \<noteq> row \<or> j \<noteq> col"
      for i j
    proof -
      have "(i, j) \<in> set cells"
        unfolding cells_def using that(1) traversal_cells[OF tr, of i j] by blast
      then have "(i, j) \<in> set (pre @ (row, col) # post)"
        unfolding split x .
      moreover have "before dir (i, j) (row, col)"
        using that(2-4) by (rule ahead_before)
      ultimately show ?thesis
        using earlier_in_prefix[OF srt'] by blast
    qed
    have re: "rect gs n m" and fl: "flagsWithin (set pre) gs"
      and tot: "sum_list (map weight (gridTiles gs)) = worth"
      using inv by (simp_all add: conserving_def shaped_def s)
    have sh: "shaped n m (moveTile dir (int n) (int m) row col s)"
      using moveTile_shaped[OF _ ib, of s dir] inv by (simp add: conserving_def)
    from moveTile_conserves[OF re ib fl nv land, of dir tss mss]
    have "sum_list (map weight (gridTiles (fst (moveTile dir (int n) (int m) row col s)))) = worth"
      and "flagsWithin (insert (row, col) (set pre)) (fst (moveTile dir (int n) (int m) row col s))"
      using tot by (simp_all add: s)
    with sh show "conserving n m worth (pre @ [x]) (step x s)"
      by (simp add: conserving_def step_def x)
  qed
  then have fin: "sum_list (map weight (gridTiles (fst final))) = worth"
    by (simp add: conserving_def)
  obtain g' ts ms where f: "final = (g', ts, ms)" by (cases final)
  have nested: "fold (\<lambda>row. fold (moveTile dir (int n) (int m) row) cols) rows (grid, [], []) = final"
    unfolding final_def step_def cells_def by (rule fold_product)
  have tr': "createTraversalMap (length (row0 # rest)) (length row0) dir = (rows, cols)"
    using tr by (simp add: n_def m_def g)
  have nested': "fold (\<lambda>row. fold (moveTile dir (int (length (row0 # rest))) (int (length row0)) row) cols)
               rows (row0 # rest, [], []) = (g', ts, ms)"
    using nested f by (simp add: n_def m_def g)
  have "moveInDirection (row0 # rest) dir = Inr (ts, g', ms)"
    unfolding moveInDirection_def using tr' nested' by (simp add: Let_def)
  then have "moveInDirection grid dir = Inr (ts, g', ms)"
    by (simp add: g)
  with fin f show ?thesis
    by (auto simp: worth_def)
qed

lemma value_mergeTile: "value (mergeTile t) = weight t"
  by (simp add: mergeTile_def weight_def)

lemma move_settle_conserves:
  assumes "wellFormed grid" and "\<forall>t \<in> set (gridTiles grid). \<not> canMerge t"
  shows "\<exists>ts1 g1 ms1. moveInDirection grid dir = Inr (ts1, g1, ms1) \<and>
           (\<exists>g2 ts2 sc w'. mergeAndCreateNewTiles g1 w = Inr ((g2, ts2, sc), w') \<and>
               sum_list (map value (filter (\<lambda>t. \<not> isNew t) ts2)) =
                 sum_list (map value (gridTiles grid)))"
proof -
  from moveInDirection_conserves[OF assms, of dir] obtain ts1 g1 ms1 where
    mv: "moveInDirection grid dir = Inr (ts1, g1, ms1)" and
    sum: "sum_list (map weight (gridTiles g1)) = sum_list (map value (gridTiles grid))"
    by blast
  from moveInDirection_shaped[OF assms(1), of dir] mv have "rect g1 (length grid) (length (hd grid))"
    by auto
  then have ne: "g1 \<noteq> []"
    using assms(1) by (auto simp: rect_def wellFormed_def)
  from settled_values[OF ne, of w] obtain g2 ts2 w' where
    eq: "mergeAndCreateNewTiles g1 w = Inr ((g2, ts2, mergedScore g1), w')" and
    fl: "filter (\<lambda>t. \<not> isNew t) ts2 = map mergeTile (gridTiles g1)"
    by blast
  have "sum_list (map value (filter (\<lambda>t. \<not> isNew t) ts2)) = sum_list (map weight (gridTiles g1))"
    unfolding fl by (simp add: comp_def value_mergeTile)
  with sum have "sum_list (map value (filter (\<lambda>t. \<not> isNew t) ts2)) = sum_list (map value (gridTiles grid))"
    by simp
  with mv eq show ?thesis by blast
qed

text \<open>
  C1: a tile merges at most once per move. At every step of the traversal, for every
  grid, direction and visited cell, a tile that is flagged canMerge (other than the
  visited one) is still in its cell after the step: the moving tile is never merged
  into it. For a whole move of a well-formed grid without flags, in every direction,
  followed by the settle cycle, the values of the tiles that are not newly spawned add
  up to the values before the move: every flagged tile stands for exactly two tiles,
  which a second merge of the same tile would break. So the row 2, 2, 2, 2 moved to the
  left becomes two flagged tiles of value 2 in the first two cells, and moved to the
  right two flagged tiles in the last two; the settle cycle then returns the two tiles
  with the values 4 and 4 (and the score 8) followed by the spawned tile, for every
  outcome of the random source, and the row it leaves is 4, 4 and one new tile of value
  2 or 4 in one of the two other cells, never a tile of value 8.
\<close>

theorem merge_once:
  "((i \<noteq> row \<or> j \<noteq> col) \<and> cellAt g i j = Some nt \<and> canMerge nt \<longrightarrow>
      cellAt (fst (moveTile dir n m row col (g, ts, ms))) i j = Some nt) \<and>
   (\<exists>ts1 g1 ms1. moveInDirection rowGrid DIRECTION_Left = Inr (ts1, g1, ms1) \<and>
      map (map (map_option value)) g1 = [[Some 2, Some 2, None, None]] \<and>
      (\<exists>g2 ts2 w'. mergeAndCreateNewTiles g1 w = Inr ((g2, ts2, 8), w') \<and>
          map value (filter (\<lambda>t. \<not> isNew t) ts2) = [4, 4] \<and>
          (validWorld w \<longrightarrow>
             (\<exists>cell. (map (map (map_option value)) g2 = [[Some 4, Some 4, cell, None]] \<or>
                      map (map (map_option value)) g2 = [[Some 4, Some 4, None, cell]]) \<and>
                     (cell = Some 2 \<or> cell = Some 4))))) \<and>
   (\<exists>ts1 g1 ms1. moveInDirection rowGrid DIRECTION_Right = Inr (ts1, g1, ms1) \<and>
      map (map (map_option value)) g1 = [[None, None, Some 2, Some 2]] \<and>
      (\<exists>g2 ts2 w'. mergeAndCreateNewTiles g1 w = Inr ((g2, ts2, 8), w') \<and>
          map value (filter (\<lambda>t. \<not> isNew t) ts2) = [4, 4])) \<and>
   (wellFormed grid \<and> (\<forall>t \<in> set (gridTiles grid). \<not> canMerge t) \<longrightarrow>
      (\<exists>ts1 g1 ms1. moveInDirection grid dir = Inr (ts1, g1, ms1) \<and>
         (\<exists>g2 ts2 sc w'. mergeAndCreateNewTiles g1 w = Inr ((g2, ts2, sc), w') \<and>
             sum_list (map value (filter (\<lambda>t. \<not> isNew t) ts2)) =
               sum_list (map value (gridTiles grid)))))"
proof (intro conjI)
  show "(i \<noteq> row \<or> j \<noteq> col) \<and> cellAt g i j = Some nt \<and> canMerge nt \<longrightarrow>
      cellAt (fst (moveTile dir n m row col (g, ts, ms))) i j = Some nt"
    using moveTile_keeps_flagged[of i row j col g nt dir n m ts ms] by blast
next
  have ne: "flaggedGrid \<noteq> []"
    by (simp add: flaggedGrid_def)
  from settled_values[OF ne, of w] obtain g2 ts2 w' where
    eq: "mergeAndCreateNewTiles flaggedGrid w = Inr ((g2, ts2, mergedScore flaggedGrid), w')"
    and fl: "filter (\<lambda>t. \<not> isNew t) ts2 = map mergeTile (gridTiles flaggedGrid)"
    by blast
  have sc: "mergedScore flaggedGrid = 8"
    by (simp add: mergedScore_def flaggedGrid_def gridTiles_def rowTiles_def tileAt_def)
  have vals: "map value (filter (\<lambda>t. \<not> isNew t) ts2) = [4, 4]"
    unfolding fl
    by (simp add: flaggedGrid_def gridTiles_def rowTiles_def tileAt_def mergeTile_def)
  have grid: "\<exists>cell. (map (map (map_option value)) g2 = [[Some 4, Some 4, cell, None]] \<or>
                      map (map (map_option value)) g2 = [[Some 4, Some 4, None, cell]]) \<and>
                     (cell = Some 2 \<or> cell = Some 4)" if "validWorld w"
    using settle_row_left[OF that] eq by auto
  have g1: "map (map (map_option value)) flaggedGrid = [[Some 2, Some 2, None, None]]"
    by (simp add: flaggedGrid_def tileAt_def)
  show "\<exists>ts1 g1 ms1. moveInDirection rowGrid DIRECTION_Left = Inr (ts1, g1, ms1) \<and>
      map (map (map_option value)) g1 = [[Some 2, Some 2, None, None]] \<and>
      (\<exists>g2 ts2 w'. mergeAndCreateNewTiles g1 w = Inr ((g2, ts2, 8), w') \<and>
          map value (filter (\<lambda>t. \<not> isNew t) ts2) = [4, 4] \<and>
          (validWorld w \<longrightarrow>
             (\<exists>cell. (map (map (map_option value)) g2 = [[Some 4, Some 4, cell, None]] \<or>
                      map (map (map_option value)) g2 = [[Some 4, Some 4, None, cell]]) \<and>
                     (cell = Some 2 \<or> cell = Some 4))))"
    using move_row_left g1 eq sc vals grid by auto
next
  have ne: "flaggedGridRight \<noteq> []"
    by (simp add: flaggedGridRight_def)
  from settled_values[OF ne, of w] obtain g2 ts2 w' where
    eq: "mergeAndCreateNewTiles flaggedGridRight w =
           Inr ((g2, ts2, mergedScore flaggedGridRight), w')"
    and fl: "filter (\<lambda>t. \<not> isNew t) ts2 = map mergeTile (gridTiles flaggedGridRight)"
    by blast
  have sc: "mergedScore flaggedGridRight = 8"
    by (simp add: mergedScore_def flaggedGridRight_def gridTiles_def rowTiles_def tileAt_def)
  have vals: "map value (filter (\<lambda>t. \<not> isNew t) ts2) = [4, 4]"
    unfolding fl
    by (simp add: flaggedGridRight_def gridTiles_def rowTiles_def tileAt_def mergeTile_def)
  have g1: "map (map (map_option value)) flaggedGridRight = [[None, None, Some 2, Some 2]]"
    by (simp add: flaggedGridRight_def tileAt_def)
  show "\<exists>ts1 g1 ms1. moveInDirection rowGrid DIRECTION_Right = Inr (ts1, g1, ms1) \<and>
      map (map (map_option value)) g1 = [[None, None, Some 2, Some 2]] \<and>
      (\<exists>g2 ts2 w'. mergeAndCreateNewTiles g1 w = Inr ((g2, ts2, 8), w') \<and>
          map value (filter (\<lambda>t. \<not> isNew t) ts2) = [4, 4])"
    using move_row_right g1 eq sc vals by auto
next
  show "wellFormed grid \<and> (\<forall>t \<in> set (gridTiles grid). \<not> canMerge t) \<longrightarrow>
      (\<exists>ts1 g1 ms1. moveInDirection grid dir = Inr (ts1, g1, ms1) \<and>
         (\<exists>g2 ts2 sc w'. mergeAndCreateNewTiles g1 w = Inr ((g2, ts2, sc), w') \<and>
             sum_list (map value (filter (\<lambda>t. \<not> isNew t) ts2)) =
               sum_list (map value (gridTiles grid))))"
    using move_settle_conserves[of grid dir w] by blast
qed

theorem merge_once_witness:
  "cellAt midGrid 0 0 = Some ((tileAt 0 0 1 2)\<lparr>canMerge := True\<rparr>) \<and>
   cellAt (fst (moveTile DIRECTION_Left 1 4 0 2 (midGrid, [], []))) 0 0 =
      Some ((tileAt 0 0 1 2)\<lparr>canMerge := True\<rparr>) \<and>
   validWorld zeroWorld \<and>
   (\<exists>ts1 g1 ms1. moveInDirection rowGrid DIRECTION_Left = Inr (ts1, g1, ms1) \<and>
      (\<exists>g2 ts2 w'. mergeAndCreateNewTiles g1 zeroWorld = Inr ((g2, ts2, 8), w') \<and>
          map value (filter (\<lambda>t. \<not> isNew t) ts2) = [4, 4] \<and>
          (\<exists>cell. (map (map (map_option value)) g2 = [[Some 4, Some 4, cell, None]] \<or>
                   map (map (map_option value)) g2 = [[Some 4, Some 4, None, cell]]) \<and>
                  (cell = Some 2 \<or> cell = Some 4)))) \<and>
   wellFormed rowGrid \<and> list_all (\<lambda>t. \<not> canMerge t) (gridTiles rowGrid) \<and>
   (\<exists>ts1 g1 ms1. moveInDirection rowGrid DIRECTION_Left = Inr (ts1, g1, ms1) \<and>
      (\<exists>g2 ts2 sc w'. mergeAndCreateNewTiles g1 zeroWorld = Inr ((g2, ts2, sc), w') \<and>
          sum_list (map value (filter (\<lambda>t. \<not> isNew t) ts2)) = 8))"
proof -
  have h: "cellAt midGrid 0 0 = Some ((tileAt 0 0 1 2)\<lparr>canMerge := True\<rparr>)"
    by (simp add: midGrid_def cellAt_def)
  have f: "canMerge ((tileAt 0 0 1 2)\<lparr>canMerge := True\<rparr>)"
    by simp
  have vw: "validWorld zeroWorld"
    by (simp add: validWorld_def zeroWorld_def)
  have ne: "(0::int) \<noteq> 0 \<or> (0::int) \<noteq> 2"
    by simp
  have wf: "wellFormed rowGrid"
    by (simp add: wellFormed_def rect_def placed_def rowGrid_def tileAt_def
          atLeast0_lessThan_Suc)
  have nf: "\<forall>t \<in> set (gridTiles rowGrid). \<not> canMerge t"
    by (simp add: rowGrid_def gridTiles_def rowTiles_def tileAt_def)
  have sm: "sum_list (map value (gridTiles rowGrid)) = 8"
    by (simp add: rowGrid_def gridTiles_def rowTiles_def tileAt_def)
  note inst = merge_once[where i = 0 and j = 0 and row = 0 and col = 2 and g = midGrid
      and nt = "(tileAt 0 0 1 2)\<lparr>canMerge := True\<rparr>" and dir = DIRECTION_Left
      and n = 1 and m = 4 and ts = "[]" and ms = "[]" and w = zeroWorld and grid = rowGrid]
  from inst ne h f
  have kept: "cellAt (fst (moveTile DIRECTION_Left 1 4 0 2 (midGrid, [], []))) 0 0 =
      Some ((tileAt 0 0 1 2)\<lparr>canMerge := True\<rparr>)"
    by simp
  from inst obtain ts1 g1 ms1 g2 ts2 w' where
    mv: "moveInDirection rowGrid DIRECTION_Left = Inr (ts1, g1, ms1)" and
    st: "mergeAndCreateNewTiles g1 zeroWorld = Inr ((g2, ts2, 8), w')" and
    vals: "map value (filter (\<lambda>t. \<not> isNew t) ts2) = [4, 4]" and
    row: "validWorld zeroWorld \<longrightarrow>
             (\<exists>cell. (map (map (map_option value)) g2 = [[Some 4, Some 4, cell, None]] \<or>
                      map (map (map_option value)) g2 = [[Some 4, Some 4, None, cell]]) \<and>
                     (cell = Some 2 \<or> cell = Some 4))"
    by (elim conjE exE)
  from row vw have cell: "\<exists>cell. (map (map (map_option value)) g2 = [[Some 4, Some 4, cell, None]] \<or>
                      map (map (map_option value)) g2 = [[Some 4, Some 4, None, cell]]) \<and>
                     (cell = Some 2 \<or> cell = Some 4)"
    by (rule mp)
  have example: "\<exists>ts1 g1 ms1. moveInDirection rowGrid DIRECTION_Left = Inr (ts1, g1, ms1) \<and>
      (\<exists>g2 ts2 w'. mergeAndCreateNewTiles g1 zeroWorld = Inr ((g2, ts2, 8), w') \<and>
          map value (filter (\<lambda>t. \<not> isNew t) ts2) = [4, 4] \<and>
          (\<exists>cell. (map (map (map_option value)) g2 = [[Some 4, Some 4, cell, None]] \<or>
                   map (map (map_option value)) g2 = [[Some 4, Some 4, None, cell]]) \<and>
                  (cell = Some 2 \<or> cell = Some 4)))"
    by (rule exI[of _ ts1], rule exI[of _ g1], rule exI[of _ ms1], rule conjI[OF mv],
        rule exI[of _ g2], rule exI[of _ ts2], rule exI[of _ w'],
        rule conjI[OF st], rule conjI[OF vals], rule cell)
  from inst have "wellFormed rowGrid \<and> (\<forall>t \<in> set (gridTiles rowGrid). \<not> canMerge t) \<longrightarrow>
      (\<exists>ts1 g1 ms1. moveInDirection rowGrid DIRECTION_Left = Inr (ts1, g1, ms1) \<and>
         (\<exists>g2 ts2 sc w'. mergeAndCreateNewTiles g1 zeroWorld = Inr ((g2, ts2, sc), w') \<and>
             sum_list (map value (filter (\<lambda>t. \<not> isNew t) ts2)) =
               sum_list (map value (gridTiles rowGrid))))"
    by (elim conjE)
  with wf nf have whole: "\<exists>ts1 g1 ms1. moveInDirection rowGrid DIRECTION_Left = Inr (ts1, g1, ms1) \<and>
      (\<exists>g2 ts2 sc w'. mergeAndCreateNewTiles g1 zeroWorld = Inr ((g2, ts2, sc), w') \<and>
          sum_list (map value (filter (\<lambda>t. \<not> isNew t) ts2)) = 8)"
    unfolding sm by (simp only: simp_thms)
  have nf': "list_all (\<lambda>t. \<not> canMerge t) (gridTiles rowGrid)"
    using nf by (simp only: list_all_iff)
  from h kept vw example wf nf' whole show ?thesis
    by (intro conjI)
qed

section \<open>Terminal-state detector: when the game can continue\<close>

lemma gridFull_countEmpty: "gridFull g \<longleftrightarrow> countEmpty g = 0"
  by (induction g) (auto simp: gridFull_def countEmpty_def list_all_iff filter_empty_conv)

lemma not_full_fewer_tiles:
  "rect g n m \<Longrightarrow> (length (gridTiles g) < n * m \<longleftrightarrow> \<not> gridFull g)"
  using length_gridTiles[of g n m] by (auto simp: gridFull_countEmpty)

lemma neighbourFree_Left:
  assumes "rect g n m" "i < n" "j < m" "r t = int i" "c t = int j"
  shows "neighbourFree g (int n) (int m) t DIRECTION_Left \<longleftrightarrow>
           (0 < j \<and> (case g ! i ! (j - 1) of None \<Rightarrow> True | Some t' \<Rightarrow> value t' = value t))"
proof (cases "0 < j")
  case False
  then show ?thesis using assms by (simp add: neighbourFree_def DIRECTION_Left_def clamp_def)
next
  case True
  have nr: "clamp (r t + r DIRECTION_Left) 0 (int n - 1) = int i"
    using assms by (simp add: DIRECTION_Left_def clamp_def)
  have nc: "clamp (c t + c DIRECTION_Left) 0 (int m - 1) = int (j - 1)"
    using assms True by (simp add: DIRECTION_Left_def clamp_def)
  have "cellAt g (int i) (int (j - 1)) = g ! i ! (j - 1)"
    using assms by (intro cellAt_nth[of g n m]) auto
  then show ?thesis
    using True assms(4,5) unfolding neighbourFree_def nr nc by (auto simp: Let_def)
qed

lemma neighbourFree_Right:
  assumes "rect g n m" "i < n" "j < m" "r t = int i" "c t = int j"
  shows "neighbourFree g (int n) (int m) t DIRECTION_Right \<longleftrightarrow>
           (Suc j < m \<and> (case g ! i ! Suc j of None \<Rightarrow> True | Some t' \<Rightarrow> value t' = value t))"
proof (cases "Suc j < m")
  case False
  then show ?thesis using assms by (simp add: neighbourFree_def DIRECTION_Right_def clamp_def)
next
  case True
  have nr: "clamp (r t + r DIRECTION_Right) 0 (int n - 1) = int i"
    using assms by (simp add: DIRECTION_Right_def clamp_def)
  have nc: "clamp (c t + c DIRECTION_Right) 0 (int m - 1) = int (Suc j)"
    using assms True by (simp add: DIRECTION_Right_def clamp_def)
  have "cellAt g (int i) (int (Suc j)) = g ! i ! Suc j"
    using assms True by (intro cellAt_nth[of g n m]) auto
  then show ?thesis
    using True assms(4,5) unfolding neighbourFree_def nr nc by (auto simp: Let_def)
qed

lemma neighbourFree_Up:
  assumes "rect g n m" "i < n" "j < m" "r t = int i" "c t = int j"
  shows "neighbourFree g (int n) (int m) t DIRECTION_Up \<longleftrightarrow>
           (0 < i \<and> (case g ! (i - 1) ! j of None \<Rightarrow> True | Some t' \<Rightarrow> value t' = value t))"
proof (cases "0 < i")
  case False
  then show ?thesis using assms by (simp add: neighbourFree_def DIRECTION_Up_def clamp_def)
next
  case True
  have nr: "clamp (r t + r DIRECTION_Up) 0 (int n - 1) = int (i - 1)"
    using assms True by (simp add: DIRECTION_Up_def clamp_def)
  have nc: "clamp (c t + c DIRECTION_Up) 0 (int m - 1) = int j"
    using assms by (simp add: DIRECTION_Up_def clamp_def)
  have "cellAt g (int (i - 1)) (int j) = g ! (i - 1) ! j"
    using assms by (intro cellAt_nth[of g n m]) auto
  then show ?thesis
    using True assms(4,5) unfolding neighbourFree_def nr nc by (auto simp: Let_def)
qed

lemma neighbourFree_Down:
  assumes "rect g n m" "i < n" "j < m" "r t = int i" "c t = int j"
  shows "neighbourFree g (int n) (int m) t DIRECTION_Down \<longleftrightarrow>
           (Suc i < n \<and> (case g ! Suc i ! j of None \<Rightarrow> True | Some t' \<Rightarrow> value t' = value t))"
proof (cases "Suc i < n")
  case False
  then show ?thesis using assms by (simp add: neighbourFree_def DIRECTION_Down_def clamp_def)
next
  case True
  have nr: "clamp (r t + r DIRECTION_Down) 0 (int n - 1) = int (Suc i)"
    using assms True by (simp add: DIRECTION_Down_def clamp_def)
  have nc: "clamp (c t + c DIRECTION_Down) 0 (int m - 1) = int j"
    using assms by (simp add: DIRECTION_Down_def clamp_def)
  have "cellAt g (int (Suc i)) (int j) = g ! Suc i ! j"
    using assms True by (intro cellAt_nth[of g n m]) auto
  then show ?thesis
    using True assms(4,5) unfolding neighbourFree_def nr nc by (auto simp: Let_def)
qed

lemma tile_opening:
  assumes "rect g n m" "i < n" "j < m" "r t = int i" "c t = int j"
  shows "list_ex (neighbourFree g (int n) (int m) t) dirs \<longleftrightarrow>
     (\<exists>i' \<in> {0..<n}. \<exists>j' \<in> {0..<m}.
        ((i' = i \<and> (j' = Suc j \<or> j = Suc j')) \<or> (j' = j \<and> (i' = Suc i \<or> i = Suc i'))) \<and>
        (case g ! i' ! j' of None \<Rightarrow> True | Some t' \<Rightarrow> value t' = value t))"
    (is "?L \<longleftrightarrow> ?R")
proof
  assume ?L
  then consider "neighbourFree g (int n) (int m) t DIRECTION_Left"
    | "neighbourFree g (int n) (int m) t DIRECTION_Right"
    | "neighbourFree g (int n) (int m) t DIRECTION_Up"
    | "neighbourFree g (int n) (int m) t DIRECTION_Down"
    by (auto simp: dirs_def)
  then show ?R
  proof cases
    case 1
    then have "0 < j" "case g ! i ! (j - 1) of None \<Rightarrow> True | Some t' \<Rightarrow> value t' = value t"
      using neighbourFree_Left[OF assms] by simp_all
    then show ?thesis using assms(2,3)
      by (intro bexI[of _ i] bexI[of _ "j - 1"]) auto
  next
    case 2
    then have "Suc j < m" "case g ! i ! Suc j of None \<Rightarrow> True | Some t' \<Rightarrow> value t' = value t"
      using neighbourFree_Right[OF assms] by simp_all
    then show ?thesis using assms(2,3)
      by (intro bexI[of _ i] bexI[of _ "Suc j"]) auto
  next
    case 3
    then have "0 < i" "case g ! (i - 1) ! j of None \<Rightarrow> True | Some t' \<Rightarrow> value t' = value t"
      using neighbourFree_Up[OF assms] by simp_all
    then show ?thesis using assms(2,3)
      by (intro bexI[of _ "i - 1"] bexI[of _ j]) auto
  next
    case 4
    then have "Suc i < n" "case g ! Suc i ! j of None \<Rightarrow> True | Some t' \<Rightarrow> value t' = value t"
      using neighbourFree_Down[OF assms] by simp_all
    then show ?thesis using assms(2,3)
      by (intro bexI[of _ "Suc i"] bexI[of _ j]) auto
  qed
next
  assume ?R
  then obtain i' j' where ij: "i' < n" "j' < m"
    and adj: "(i' = i \<and> (j' = Suc j \<or> j = Suc j')) \<or> (j' = j \<and> (i' = Suc i \<or> i = Suc i'))"
    and free: "case g ! i' ! j' of None \<Rightarrow> True | Some t' \<Rightarrow> value t' = value t"
    by auto
  from adj consider "i' = i" "j' = Suc j" | "i' = i" "j = Suc j'" | "j' = j" "i' = Suc i" | "j' = j" "i = Suc i'"
    by blast
  then have "neighbourFree g (int n) (int m) t DIRECTION_Left \<or>
             neighbourFree g (int n) (int m) t DIRECTION_Right \<or>
             neighbourFree g (int n) (int m) t DIRECTION_Up \<or>
             neighbourFree g (int n) (int m) t DIRECTION_Down"
  proof cases
    case 1
    then show ?thesis using neighbourFree_Right[OF assms] ij free by simp
  next
    case 2
    then show ?thesis using neighbourFree_Left[OF assms] ij free by simp
  next
    case 3
    then show ?thesis using neighbourFree_Down[OF assms] ij free by simp
  next
    case 4
    then show ?thesis using neighbourFree_Up[OF assms] ij free by simp
  qed
  then show ?L by (auto simp: dirs_def)
qed

lemma loop_opening:
  assumes "rect g n m" "placed g"
  shows "list_ex (\<lambda>tile. list_ex (neighbourFree g (int n) (int m) tile) dirs) (gridTiles g)
           \<longleftrightarrow> (\<exists>i \<in> {0..<n}. \<exists>j \<in> {0..<m}. \<exists>i' \<in> {0..<n}. \<exists>j' \<in> {0..<m}.
        ((i' = i \<and> (j' = Suc j \<or> j = Suc j')) \<or> (j' = j \<and> (i' = Suc i \<or> i = Suc i'))) \<and>
        (case g ! i ! j of
           None \<Rightarrow> False
         | Some t \<Rightarrow> (case g ! i' ! j' of None \<Rightarrow> True | Some t' \<Rightarrow> value t' = value t)))"
    (is "?L \<longleftrightarrow> ?R")
proof
  assume ?L
  then obtain t where t: "t \<in> set (gridTiles g)" and ex: "list_ex (neighbourFree g (int n) (int m) t) dirs"
    by (auto simp: list_ex_iff)
  from t obtain i j where ij: "i < length g" "j < length (g ! i)" "g ! i ! j = Some t"
    by (auto simp: set_gridTiles)
  have i: "i < n" and j: "j < m"
    using ij assms(1) rect_row[OF assms(1), of i] by (auto simp: rect_def)
  have pos: "r t = int i" "c t = int j"
    using placedD[OF assms(2) ij] by simp_all
  have "\<exists>i' \<in> {0..<n}. \<exists>j' \<in> {0..<m}.
        ((i' = i \<and> (j' = Suc j \<or> j = Suc j')) \<or> (j' = j \<and> (i' = Suc i \<or> i = Suc i'))) \<and>
        (case g ! i' ! j' of None \<Rightarrow> True | Some t' \<Rightarrow> value t' = value t)"
    using tile_opening[OF assms(1) i j pos] ex by (simp only:)
  then obtain i' j' where
    i': "i' \<in> {0..<n}" and j': "j' \<in> {0..<m}" and
    adj: "(i' = i \<and> (j' = Suc j \<or> j = Suc j')) \<or> (j' = j \<and> (i' = Suc i \<or> i = Suc i'))" and
    free: "case g ! i' ! j' of None \<Rightarrow> True | Some t' \<Rightarrow> value t' = value t"
    by (elim bexE conjE)
  have iin: "i \<in> {0..<n}" and jin: "j \<in> {0..<m}"
    using i j by simp_all
  show ?R
  proof (rule bexI[OF _ iin], rule bexI[OF _ jin], rule bexI[OF _ i'], rule bexI[OF _ j'], rule conjI)
    show "(i' = i \<and> (j' = Suc j \<or> j = Suc j')) \<or> (j' = j \<and> (i' = Suc i \<or> i = Suc i'))"
      by (rule adj)
    show "case g ! i ! j of None \<Rightarrow> False
         | Some t \<Rightarrow> (case g ! i' ! j' of None \<Rightarrow> True | Some t' \<Rightarrow> value t' = value t)"
      using free by (simp only: ij(3) option.case)
  qed
next
  assume ?R
  then obtain i j i' j' where iin: "i \<in> {0..<n}" "j \<in> {0..<m}" "i' \<in> {0..<n}" "j' \<in> {0..<m}"
    and adj: "(i' = i \<and> (j' = Suc j \<or> j = Suc j')) \<or> (j' = j \<and> (i' = Suc i \<or> i = Suc i'))"
    and cs: "case g ! i ! j of
           None \<Rightarrow> False
         | Some t \<Rightarrow> (case g ! i' ! j' of None \<Rightarrow> True | Some t' \<Rightarrow> value t' = value t)"
    by (elim bexE conjE)
  from cs obtain t where t: "g ! i ! j = Some t"
    and free: "case g ! i' ! j' of None \<Rightarrow> True | Some t' \<Rightarrow> value t' = value t"
    by (cases "g ! i ! j") simp_all
  have ij: "i < n" "j < m" "i' < n" "j' < m"
    using iin by simp_all
  have len: "i < length g" "j < length (g ! i)"
    using ij assms(1) rect_row[OF assms(1), of i] by (auto simp: rect_def)
  have pos: "r t = int i" "c t = int j"
    using placedD[OF assms(2) len t] by simp_all
  have mem: "t \<in> set (gridTiles g)"
    using len t by (auto simp: set_gridTiles)
  have "\<exists>i' \<in> {0..<n}. \<exists>j' \<in> {0..<m}.
        ((i' = i \<and> (j' = Suc j \<or> j = Suc j')) \<or> (j' = j \<and> (i' = Suc i \<or> i = Suc i'))) \<and>
        (case g ! i' ! j' of None \<Rightarrow> True | Some t' \<Rightarrow> value t' = value t)"
    by (rule bexI[OF _ iin(3)], rule bexI[OF _ iin(4)], rule conjI[OF adj free])
  then have "list_ex (neighbourFree g (int n) (int m) t) dirs"
    by (simp only: tile_opening[OF assms(1) ij(1,2) pos])
  with mem show ?L by (auto simp: list_ex_iff)
qed

text \<open>
  C7: for every well-formed grid and every tile list that holds the tiles of the grid
  (in any order), canGameContinue returns, and it returns false exactly when the grid is
  completely full and no tile has a neighbour on the board, along a row or a column,
  that is empty or holds an equal value; in particular it returns true whenever a cell
  is empty.
\<close>

theorem canContinue_iff:
  assumes "wellFormed grid" and "mset ts = mset (gridTiles grid)"
  shows "canGameContinue grid ts = Inr (\<not> (gridFull grid \<and> \<not> hasOpening grid)) \<and>
         (\<not> gridFull grid \<longrightarrow> canGameContinue grid ts = Inr True)"
proof -
  obtain row0 rest where g: "grid = row0 # rest"
    using assms(1) by (cases grid) (auto simp: wellFormed_def)
  define n where "n = length grid"
  define m where "m = length row0"
  have re: "rect grid n m" and pl: "placed grid"
    using assms(1) by (simp_all add: wellFormed_def n_def m_def g)
  have len: "length ts = length (gridTiles grid)"
    using assms(2) by (rule mset_eq_length)
  have set: "set ts = set (gridTiles grid)"
    using assms(2) by (rule mset_eq_setD)
  have unfold: "canGameContinue grid ts =
      (if int (length ts) < int n * int m then Inr True
       else Inr (list_ex (\<lambda>tile. list_ex (neighbourFree grid (int n) (int m) tile) dirs) ts))"
    by (simp add: canGameContinue_def g n_def m_def Let_def)
  have lt: "int (length ts) < int n * int m \<longleftrightarrow> \<not> gridFull grid"
    using not_full_fewer_tiles[OF re] len
    by (metis of_nat_less_iff of_nat_mult)
  have loop: "list_ex (\<lambda>tile. list_ex (neighbourFree grid (int n) (int m) tile) dirs) ts
      \<longleftrightarrow> hasOpening grid"
  proof -
    have "list_ex (\<lambda>tile. list_ex (neighbourFree grid (int n) (int m) tile) dirs) ts
      \<longleftrightarrow> list_ex (\<lambda>tile. list_ex (neighbourFree grid (int n) (int m) tile) dirs) (gridTiles grid)"
      by (simp add: list_ex_iff set)
    also have "\<dots> \<longleftrightarrow> hasOpening grid"
      unfolding loop_opening[OF re pl] hasOpening_def by (simp add: n_def m_def g)
    finally show ?thesis .
  qed
  show ?thesis
    unfolding unfold using lt loop by simp
qed

theorem canContinue_iff_witness:
  "wellFormed stuckGrid \<and> gridFull stuckGrid \<and> \<not> hasOpening stuckGrid \<and>
   canGameContinue stuckGrid (gridTiles stuckGrid) = Inr False \<and>
   wellFormed pairGrid \<and> gridFull pairGrid \<and> hasOpening pairGrid \<and>
   canGameContinue pairGrid (gridTiles pairGrid) = Inr True \<and>
   wellFormed flaggedGrid \<and> \<not> gridFull flaggedGrid \<and>
   canGameContinue flaggedGrid (gridTiles flaggedGrid) = Inr True"
proof -
  have wf1: "wellFormed stuckGrid"
    by (simp add: wellFormed_def rect_def placed_def stuckGrid_def tileAt_def
          atLeast0_lessThan_Suc)
  have full1: "gridFull stuckGrid"
    by (simp add: gridFull_def stuckGrid_def)
  have op1: "\<not> hasOpening stuckGrid"
    by (simp add: hasOpening_def stuckGrid_def tileAt_def atLeast0_lessThan_Suc)
  have wf2: "wellFormed pairGrid"
    by (simp add: wellFormed_def rect_def placed_def pairGrid_def tileAt_def
          atLeast0_lessThan_Suc)
  have full2: "gridFull pairGrid"
    by (simp add: gridFull_def pairGrid_def)
  have op2: "hasOpening pairGrid"
    by (simp add: hasOpening_def pairGrid_def tileAt_def atLeast0_lessThan_Suc)
  have wf3: "wellFormed flaggedGrid"
    by (simp add: wellFormed_def rect_def placed_def flaggedGrid_def tileAt_def
          atLeast0_lessThan_Suc)
  have full3: "\<not> gridFull flaggedGrid"
    by (simp add: gridFull_def flaggedGrid_def)
  show ?thesis
    using canContinue_iff[OF wf1, of "gridTiles stuckGrid"]
          canContinue_iff[OF wf2, of "gridTiles pairGrid"]
          canContinue_iff[OF wf3, of "gridTiles flaggedGrid"]
          wf1 full1 op1 wf2 full2 op2 wf3 full3
    by simp
qed

section \<open>Session coordinator\<close>

lemma canGameContinue_stuck: "canGameContinue stuckGrid (gridTiles stuckGrid) = Inr False"
  by (simp add: stuckGrid_def canGameContinue_def gridTiles_def rowTiles_def tileAt_def
        neighbourFree_def dirs_def DIRECTION_Left_def DIRECTION_Right_def DIRECTION_Up_def
        DIRECTION_Down_def clamp_def cellAt_def)

text \<open>
  C4, as the code has it: the status is set to win only from running (and only when a
  tile has reached 2048); it is set to lost only when the board cannot continue, from
  any status other than lost and restart: from running when there is no win, and also
  from win and from continue, where the loss check runs as well.
\<close>

theorem status_transitions:
  "(statusEffect st s w = Inr (s', Some Win, w') \<longrightarrow> st = Running \<and> isWin (tiles s)) \<and>
   (statusEffect st s w = Inr (s', Some Lost, w') \<longrightarrow>
       st \<noteq> Lost \<and> st \<noteq> Restart \<and> (st = Running \<longrightarrow> \<not> isWin (tiles s)) \<and>
       canGameContinue (gridRef s) (tiles s) = Inr False) \<and>
   ((st = Win \<or> st = Continue \<or> (st = Running \<and> \<not> isWin (tiles s))) \<and>
    canGameContinue (gridRef s) (tiles s) = Inr False \<longrightarrow>
       statusEffect st s w = Inr (s, Some Lost, w))"
  by (auto simp: statusEffect_def Let_def split: if_splits list.splits sum.splits prod.splits)

theorem status_transitions_witness:
  "statusEffect Running winSession zeroWorld = Inr (winSession, Some Win, zeroWorld) \<and>
   isWin (tiles winSession) \<and>
   canGameContinue (gridRef stuckSession) (tiles stuckSession) = Inr False \<and>
   statusEffect Win stuckSession zeroWorld = Inr (stuckSession, Some Lost, zeroWorld) \<and>
   \<not> isWin (tiles stuckSession)"
proof -
  have win: "statusEffect Running winSession zeroWorld = Inr (winSession, Some Win, zeroWorld)"
    by (simp add: statusEffect_def winSession_def isWin_def tileAt_def)
  have stuck: "canGameContinue (gridRef stuckSession) (tiles stuckSession) = Inr False"
    by (simp add: stuckSession_def canGameContinue_stuck)
  have nowin: "\<not> isWin (tiles stuckSession)"
    by (simp add: stuckSession_def stuckGrid_def gridTiles_def rowTiles_def isWin_def tileAt_def)
  show ?thesis
    using status_transitions[of Running winSession zeroWorld winSession zeroWorld]
          status_transitions[of Win stuckSession zeroWorld stuckSession zeroWorld]
          win stuck nowin
    by simp
qed

text \<open>
  The claim C4 as stated fails: from the status continue, on a full board with no two
  equal neighbours, the effect sets the status to lost.
\<close>

theorem lost_from_continue_counterexample:
  "statusEffect Continue stuckSession zeroWorld = Inr (stuckSession, Some Lost, zeroWorld)"
proof -
  have "canGameContinue (gridRef stuckSession) (tiles stuckSession) = Inr False"
    by (simp add: stuckSession_def canGameContinue_stuck)
  then show ?thesis
    by (simp add: statusEffect_def)
qed

text \<open>
  C6: for every direction, a directional input that arrives while the pending stack is
  not empty, or while pause is set (the ref that the layout effect sets from the pause
  parameter), returns the session as it was: the grid, the tile list, the pending stack
  and the moving flag are unchanged and nothing is recorded from which the move could
  be made later.
\<close>

theorem onMove_dropped:
  "(pendingStackRef s \<noteq> [] \<or> pauseRef s \<longrightarrow> onMove dir s = Inr s) \<and>
   onMove dir (pauseEffect True s) = Inr (pauseEffect True s)"
  by (auto simp: onMove_def pauseEffect_def)

theorem onMove_dropped_witness:
  "pendingStackRef (rowSession\<lparr>pendingStackRef := [3]\<rparr>) \<noteq> [] \<and>
   onMove DIRECTION_Left (rowSession\<lparr>pendingStackRef := [3]\<rparr>) =
      Inr (rowSession\<lparr>pendingStackRef := [3]\<rparr>) \<and>
   pauseRef (rowSession\<lparr>pauseRef := True\<rparr>) \<and>
   onMove DIRECTION_Left (rowSession\<lparr>pauseRef := True\<rparr>) =
      Inr (rowSession\<lparr>pauseRef := True\<rparr>) \<and>
   (\<exists>s. onMove DIRECTION_Left rowSession = Inr s \<and> s \<noteq> rowSession)"
proof -
  have moved: "\<exists>s. onMove DIRECTION_Left rowSession = Inr s \<and> s \<noteq> rowSession"
    using move_row_left by (simp add: onMove_def rowSession_def)
  show ?thesis
    using onMove_dropped[of "rowSession\<lparr>pendingStackRef := [3]\<rparr>" DIRECTION_Left]
          onMove_dropped[of "rowSession\<lparr>pauseRef := True\<rparr>" DIRECTION_Left] moved
    by simp
qed

lemma pending_countdown:
  "length (pendingStackRef ((onMovePending ^^ n) s)) = length (pendingStackRef s) - n"
  by (induction n) (auto simp: onMovePending_def Let_def)

text \<open>
  C10: after any number of calls of onMovePending the length of the pending stack is
  the length before minus the number of calls, and zero when there were more calls than
  elements: it never goes below zero. A call on an empty stack leaves the stack empty
  and the moving flag false.
\<close>

theorem pending_never_negative:
  "int (length (pendingStackRef ((onMovePending ^^ n) s))) =
      max 0 (int (length (pendingStackRef s)) - int n) \<and>
   (pendingStackRef s = [] \<longrightarrow>
      pendingStackRef (onMovePending s) = [] \<and> \<not> moving (onMovePending s))"
  using pending_countdown[of n s] by (auto simp: onMovePending_def Let_def)

theorem pending_never_negative_witness:
  "pendingStackRef rowSession = [] \<and>
   int (length (pendingStackRef ((onMovePending ^^ 3) rowSession))) = 0 \<and>
   pendingStackRef (onMovePending rowSession) = [] \<and> \<not> moving (onMovePending rowSession)"
  using pending_never_negative[of 3 rowSession]
  by (simp add: rowSession_def)

section \<open>Identity allocator: tile identifiers\<close>

lemma createNewTile_id:
  "id' (fst (createNewTile i j w)) = showNum (tileIndex w) @ ''_'' @ showNum (dates w (dateCalls w))"
  by (simp add: createNewTile_def nextTileIndex_def getId_def dateNow_def mathRandom_def Let_def)

text \<open>
  The first tile of a board reset always has the index 0, so its identifier is \<open>0_\<close>
  followed by the clock reading.
\<close>

lemma shuffleLoop_world:
  "snd (shuffleLoop k xs w) = w\<lparr>randomCalls := randomCalls w + k\<rparr>"
  by (induction k arbitrary: xs w) (simp_all add: Let_def mathRandom_def case_prod_beta)

lemma createRandomTiles_first:
  assumes "cells \<noteq> []" and "0 < amount"
  shows "fst (createRandomTiles cells amount w) \<noteq> [] \<and>
         id' (hd (fst (createRandomTiles cells amount w))) =
           showNum (tileIndex w) @ ''_'' @ showNum (dates w (dateCalls w))"
proof -
  define k where "k = (if length cells < amount then length cells else amount)"
  have k: "0 < k" using assms by (auto simp: k_def)
  define sh where "sh = fst (shuffle cells w)"
  define w1 where "w1 = snd (shuffle cells w)"
  have w1: "tileIndex w1 = tileIndex w" "dates w1 = dates w" "dateCalls w1 = dateCalls w"
    by (simp_all add: w1_def shuffle_def shuffleLoop_world)
  have "length sh = length cells"
    by (simp add: sh_def length_shuffle)
  then obtain loc locs where tk: "take k sh = loc # locs"
    using k assms(1) by (cases "take k sh") auto
  have eq: "createRandomTiles cells amount w = createTiles (loc # locs) w1"
    using k tk by (simp add: createRandomTiles_def k_def[symmetric] Let_def case_prod_beta
                      sh_def[symmetric] w1_def[symmetric])
  show ?thesis
    unfolding eq using w1 by (simp add: Let_def case_prod_beta createNewTile_id)
qed

lemma reset_first_id:
  assumes "0 < rows * cols"
  shows "snd (fst (resetGameBoard rows cols w)) \<noteq> [] \<and>
         id' (hd (snd (fst (resetGameBoard rows cols w)))) =
           ''0_'' @ showNum (dates w (dateCalls w))"
proof -
  have ne: "getEmptyCellsLocation (createEmptyGrid rows cols) \<noteq> []"
    using assms length_getEmptyCellsLocation[of "createEmptyGrid rows cols"]
    by (auto simp: countEmpty_createEmptyGrid)
  have am: "0 < (if rows * cols \<ge> 24 then 4 else 2 :: nat)" by simp
  from createRandomTiles_first[OF ne am, of "resetTileIndex w"]
  show ?thesis
    by (simp add: resetGameBoard_def Let_def case_prod_beta resetTileIndex_def showNum_def)
qed

text \<open>
  The decimal text of a number determines the number and holds no underscore, so the
  identifier determines the index: while the counter runs on, identifiers differ, and
  two equal identifiers need a reset of the counter in between.
\<close>

lemma digit_char_inj:
  "a < 10 \<Longrightarrow> b < 10 \<Longrightarrow> ''0123456789'' ! a = ''0123456789'' ! b \<Longrightarrow> a = b"
proof -
  assume a: "a < 10" and b: "b < 10" and eq: "''0123456789'' ! a = ''0123456789'' ! b"
  have "distinct ''0123456789''" by simp
  moreover have "a < length ''0123456789''" "b < length ''0123456789''" using a b by simp_all
  ultimately show "a = b" using eq by (simp only: nth_eq_iff_index_eq)
qed

lemma digits_nonempty: "digits n \<noteq> []"
  by (subst digits.simps) simp

lemma digits_chars: "set (digits n) \<subseteq> set ''0123456789''"
proof (induction n rule: digits.induct)
  case (1 n)
  have m: "''0123456789'' ! k \<in> set ''0123456789''" if "k < 10" for k
    using that by (intro nth_mem) simp
  show ?case
  proof (cases "n < 10")
    case True
    then show ?thesis using m[of n] by (subst digits.simps) simp
  next
    case False
    then show ?thesis
      using "1.IH" m[of "n mod 10"] by (subst digits.simps) auto
  qed
qed

lemma digit_not_sign:
  "ch \<in> set ''0123456789'' \<Longrightarrow> ch \<noteq> CHR ''-'' \<and> ch \<noteq> CHR ''_''"
  by auto

lemma digits_inj: "digits a = digits b \<Longrightarrow> a = b"
proof (induction a arbitrary: b rule: digits.induct)
  case (1 a)
  show ?case
  proof (cases "a < 10")
    case True
    then have da: "digits a = [''0123456789'' ! a]" by (subst digits.simps) simp
    show ?thesis
    proof (cases "b < 10")
      case b: True
      then have "digits b = [''0123456789'' ! b]" by (subst digits.simps) simp
      with da "1.prems" have "''0123456789'' ! a = ''0123456789'' ! b" by simp
      then show ?thesis using True b by (rule digit_char_inj[rotated 2])
    next
      case False
      then have "digits b = digits (b div 10) @ [''0123456789'' ! (b mod 10)]"
        by (subst digits.simps) simp
      with da "1.prems" digits_nonempty[of "b div 10"] show ?thesis by simp
    qed
  next
    case False
    then have da: "digits a = digits (a div 10) @ [''0123456789'' ! (a mod 10)]"
      by (subst digits.simps) simp
    show ?thesis
    proof (cases "b < 10")
      case True
      then have "digits b = [''0123456789'' ! b]" by (subst digits.simps) simp
      with da "1.prems" digits_nonempty[of "a div 10"] show ?thesis by simp
    next
      case b: False
      then have "digits b = digits (b div 10) @ [''0123456789'' ! (b mod 10)]"
        by (subst digits.simps) simp
      with da "1.prems" have d: "digits (a div 10) = digits (b div 10)"
        and ch: "''0123456789'' ! (a mod 10) = ''0123456789'' ! (b mod 10)" by simp_all
      have "a div 10 = b div 10" using "1.IH"[OF False d] .
      moreover have "a mod 10 = b mod 10"
        using ch by (intro digit_char_inj) simp_all
      ultimately show ?thesis by (metis div_mult_mod_eq)
    qed
  qed
qed

lemma showNum_inj: "showNum a = showNum b \<Longrightarrow> a = b"
proof -
  assume eq: "showNum a = showNum b"
  have nd: "hd (digits n) \<noteq> CHR ''-''" for n
  proof -
    have "hd (digits n) \<in> set (digits n)"
      using digits_nonempty[of n] by (rule hd_in_set)
    then have "hd (digits n) \<in> set ''0123456789''"
      using digits_chars[of n] by (rule subsetD[rotated])
    then show ?thesis by (rule digit_not_sign[THEN conjunct1])
  qed
  show ?thesis
  proof (cases "a < 0")
    case True
    show ?thesis
    proof (cases "b < 0")
      case b: True
      with True eq have "digits (nat (- a)) = digits (nat (- b))" by (simp add: showNum_def)
      then have "nat (- a) = nat (- b)" by (rule digits_inj)
      with True b show ?thesis by simp
    next
      case False
      with True eq have "CHR ''-'' # digits (nat (- a)) = digits (nat b)" by (simp add: showNum_def)
      then have "hd (digits (nat b)) = hd (CHR ''-'' # digits (nat (- a)))" by (rule arg_cong[OF sym])
      then have "hd (digits (nat b)) = CHR ''-''" by (simp only: list.sel)
      then show ?thesis using nd[of "nat b"] by (rule notE[rotated])
    qed
  next
    case False
    show ?thesis
    proof (cases "b < 0")
      case True
      with False eq have "digits (nat a) = CHR ''-'' # digits (nat (- b))" by (simp add: showNum_def)
      then have "hd (digits (nat a)) = hd (CHR ''-'' # digits (nat (- b)))" by (rule arg_cong)
      then have "hd (digits (nat a)) = CHR ''-''" by (simp only: list.sel)
      then show ?thesis using nd[of "nat a"] by (rule notE[rotated])
    next
      case b: False
      with False eq have "digits (nat a) = digits (nat b)" by (simp add: showNum_def)
      then have "nat a = nat b" by (rule digits_inj)
      with False b show ?thesis by simp
    qed
  qed
qed

lemma digits_no_underscore: "CHR ''_'' \<notin> set (digits n)"
proof
  assume "CHR ''_'' \<in> set (digits n)"
  then have "CHR ''_'' \<in> set ''0123456789''"
    using digits_chars[of n] by (rule subsetD[rotated])
  then show False using digit_not_sign by blast
qed

lemma showNum_no_underscore: "CHR ''_'' \<notin> set (showNum n)"
proof (cases "n < 0")
  case True
  then have "set (showNum n) = insert CHR ''-'' (set (digits (nat (- n))))"
    by (simp add: showNum_def)
  then show ?thesis using digits_no_underscore[of "nat (- n)"] by simp
next
  case False
  then show ?thesis using digits_no_underscore[of "nat n"] by (simp add: showNum_def)
qed

lemma getId_text: "fst (getId i w) = showNum i @ CHR ''_'' # showNum (dates w (dateCalls w))"
  by (simp add: getId_def dateNow_def)

lemma getId_index_injective:
  assumes "fst (getId i w) = fst (getId k w')"
  shows "i = k"
proof -
  have "showNum i @ CHR ''_'' # showNum (dates w (dateCalls w)) =
        showNum k @ CHR ''_'' # showNum (dates w' (dateCalls w'))"
    using assms unfolding getId_text .
  then have "showNum i = showNum k \<and>
             showNum (dates w (dateCalls w)) = showNum (dates w' (dateCalls w'))"
    by (rule append_Cons_eq_iff[OF showNum_no_underscore showNum_no_underscore, THEN iffD1])
  then show "i = k" by (intro showNum_inj) (rule conjunct1)
qed

text \<open>
  C5: the identifier of a new tile is the decimal allocation counter, an underscore and
  the decimal clock reading. It is not unique: two board resets whose clock readings
  are equal both give their first tile the same identifier; and when the counter is
  reset between two allocations and the clock returns the same reading for both (they
  fall within the same millisecond), the two tiles get the same index and the same
  identifier, also when they are different tiles at different cells.
\<close>

theorem id_not_unique:
  "id' (fst (createNewTile i1 j1 w)) =
      showNum (tileIndex w) @ ''_'' @ showNum (dates w (dateCalls w)) \<and>
   (0 < rows * cols \<and> dates w (dateCalls w) = dates w' (dateCalls w') \<longrightarrow>
      id' (hd (snd (fst (resetGameBoard rows cols w)))) =
      id' (hd (snd (fst (resetGameBoard rows cols w'))))) \<and>
   (dates w (dateCalls w) = dates w (Suc (dateCalls w)) \<longrightarrow>
      (let (t1, w1) = createNewTile i1 j1 (resetTileIndex w);
           (t2, w2) = createNewTile i2 j2 (resetTileIndex w1)
       in id' t1 = id' t2 \<and> index t1 = index t2 \<and> (i1 \<noteq> i2 \<or> j1 \<noteq> j2 \<longrightarrow> t1 \<noteq> t2)))"
proof (intro conjI impI)
  show "id' (fst (createNewTile i1 j1 w)) =
      showNum (tileIndex w) @ ''_'' @ showNum (dates w (dateCalls w))"
    by (rule createNewTile_id)
next
  assume a: "0 < rows * cols \<and> dates w (dateCalls w) = dates w' (dateCalls w')"
  then show "id' (hd (snd (fst (resetGameBoard rows cols w)))) =
      id' (hd (snd (fst (resetGameBoard rows cols w'))))"
    using reset_first_id[of rows cols w] reset_first_id[of rows cols w'] by simp
next
  assume "dates w (dateCalls w) = dates w (Suc (dateCalls w))"
  then show "let (t1, w1) = createNewTile i1 j1 (resetTileIndex w);
           (t2, w2) = createNewTile i2 j2 (resetTileIndex w1)
       in id' t1 = id' t2 \<and> index t1 = index t2 \<and> (i1 \<noteq> i2 \<or> j1 \<noteq> j2 \<longrightarrow> t1 \<noteq> t2)"
    by (auto simp: createNewTile_def nextTileIndex_def getId_def dateNow_def mathRandom_def
          resetTileIndex_def Let_def)
qed

theorem id_not_unique_witness:
  "id' (hd (snd (fst (resetGameBoard 4 4 zeroWorld)))) =
     id' (hd (snd (fst (resetGameBoard 4 4 (zeroWorld\<lparr>tileIndex := 5, dateCalls := 7\<rparr>))))) \<and>
   (let (t1, w1) = createNewTile 0 0 (resetTileIndex zeroWorld);
        (t2, w2) = createNewTile 1 1 (resetTileIndex w1)
    in id' t1 = ''0_0'' \<and> id' t2 = ''0_0'' \<and> t1 \<noteq> t2)"
proof -
  have d: "dates zeroWorld (dateCalls zeroWorld) =
           dates (zeroWorld\<lparr>tileIndex := 5, dateCalls := 7\<rparr>)
             (dateCalls (zeroWorld\<lparr>tileIndex := 5, dateCalls := 7\<rparr>))"
    by (simp add: zeroWorld_def)
  have p: "(0::nat) < 4 * 4"
    by simp
  note inst = id_not_unique[of 0 0 zeroWorld 4 4 "zeroWorld\<lparr>tileIndex := 5, dateCalls := 7\<rparr>" 1 1]
  from inst d p have first: "id' (hd (snd (fst (resetGameBoard 4 4 zeroWorld)))) =
     id' (hd (snd (fst (resetGameBoard 4 4 (zeroWorld\<lparr>tileIndex := 5, dateCalls := 7\<rparr>)))))"
    by blast
  have second: "let (t1, w1) = createNewTile 0 0 (resetTileIndex zeroWorld);
        (t2, w2) = createNewTile 1 1 (resetTileIndex w1)
    in id' t1 = ''0_0'' \<and> id' t2 = ''0_0'' \<and> t1 \<noteq> t2"
    using inst
    by (simp add: zeroWorld_def createNewTile_def nextTileIndex_def getId_def dateNow_def
          mathRandom_def resetTileIndex_def Let_def showNum_def)
  from first second show ?thesis
    by (rule conjI)
qed

end
